theory Spec2Isabelle
  imports Complex_Main "HOL-Library.AList" "HOL-Library.Product_Lexorder" "HOL-Library.Multiset"
    "HOL-Library.Log_Nat"
begin

section \<open>Time texts and numeric helpers (backend/server.ts, lines 1468-1491)\<close>

text \<open>
  A time text \<^verbatim>\<open>M:SS\<close> with two whole-number fields is kept as these two fields; the
  zero padding of the seconds field is presentation only. The segments and annotations
  of the pipeline carry texts of this form, and an empty or missing text is \<open>None\<close>
  where the source tests for it. What \<^verbatim>\<open>timeToSeconds\<close> makes of any other text, a
  fractional field or a field that is not a number, is \<open>timeToSecondsText\<close> below.
  Whole numbers are exact, and the pipeline takes the durations of the annotations as
  exact rationals; the interpolation of the mood curve and the arithmetic on time
  texts of any form round to doubles as the source does.
\<close>

datatype timestr = MSS int int

definition timeToSeconds :: "timestr \<Rightarrow> int" where
  "timeToSeconds timeStr = (case timeStr of MSS m s \<Rightarrow> m * 60 + s)"

text \<open>The remainder operator of JavaScript takes the sign of the dividend.\<close>

definition jsRem :: "rat \<Rightarrow> rat \<Rightarrow> rat" where
  "jsRem x y = x - y * of_int (if 0 \<le> x / y then \<lfloor>x / y\<rfloor> else \<lceil>x / y\<rceil>)"

definition secondsToTime :: "rat \<Rightarrow> timestr" where
  "secondsToTime totalSeconds = MSS \<lfloor>totalSeconds / 60\<rfloor> \<lfloor>jsRem totalSeconds 60\<rfloor>"

definition clamp :: "'a::linorder \<Rightarrow> 'a \<Rightarrow> 'a \<Rightarrow> 'a" where
  "clamp v lo hi = min hi (max lo v)"

text \<open>\<^verbatim>\<open>Math.round\<close> rounds halves upwards.\<close>

definition mathRound :: "rat \<Rightarrow> int" where
  "mathRound x = \<lfloor>x + 1 / 2\<rfloor>"

subsection \<open>Double-precision arithmetic\<close>

text \<open>
  The numbers of the source are IEEE 754 doubles. A rational stands for the double of
  that value, and \<open>toDouble\<close> rounds the exact result of an operation to the nearest
  double: 53 significant bits, a tie going to the even neighbour. \<open>ilog2 x\<close> is the
  binary exponent of a positive \<open>x\<close>, the whole part of its logarithm to base 2.
  Overflow and subnormal numbers are outside this model.
\<close>

definition pow2 :: "int \<Rightarrow> rat" where
  "pow2 e = (if 0 \<le> e then 2 ^ nat e else 1 / 2 ^ nat (- e))"

definition ilog2 :: "rat \<Rightarrow> int" where
  "ilog2 x = (if 1 \<le> x then bitlen \<lfloor>x\<rfloor> - 1 else - bitlen (\<lceil>1 / x\<rceil> - 1))"

definition roundEven :: "rat \<Rightarrow> int" where
  "roundEven m =
     (let f = \<lfloor>m\<rfloor>; r = m - of_int f
      in if r < 1 / 2 then f else if 1 / 2 < r then f + 1 else if even f then f else f + 1)"

definition toDouble :: "rat \<Rightarrow> rat" where
  "toDouble x =
     (if x = 0 then 0
      else (let e = ilog2 \<bar>x\<bar> - 52 in of_int (roundEven (x / pow2 e)) * pow2 e))"

text \<open>
  A number that may be \<^verbatim>\<open>NaN\<close>: \<^verbatim>\<open>NaN\<close> makes every sum, difference and product
  \<^verbatim>\<open>NaN\<close> and every comparison false. The results of the operations are rounded to
  doubles; infinite numbers are outside this model.
\<close>

datatype jsnum = NaN | Num rat

definition jsAdd :: "jsnum \<Rightarrow> jsnum \<Rightarrow> jsnum" where
  "jsAdd a b = (case (a, b) of (Num x, Num y) \<Rightarrow> Num (toDouble (x + y)) | _ \<Rightarrow> NaN)"

definition jsSub :: "jsnum \<Rightarrow> jsnum \<Rightarrow> jsnum" where
  "jsSub a b = (case (a, b) of (Num x, Num y) \<Rightarrow> Num (toDouble (x - y)) | _ \<Rightarrow> NaN)"

definition jsMul :: "jsnum \<Rightarrow> jsnum \<Rightarrow> jsnum" where
  "jsMul a b = (case (a, b) of (Num x, Num y) \<Rightarrow> Num (toDouble (x * y)) | _ \<Rightarrow> NaN)"

definition jsGreater :: "jsnum \<Rightarrow> jsnum \<Rightarrow> bool" where
  "jsGreater a b = (case (a, b) of (Num x, Num y) \<Rightarrow> y < x | _ \<Rightarrow> False)"

subsection \<open>Time texts of any form (lines 1468-1473)\<close>

text \<open>
  A time text as \<^verbatim>\<open>timeToSeconds\<close> reads it: falsy (missing or empty), or the numbers
  that \<^verbatim>\<open>split(':').map(Number)\<close> makes of its fields, the first field and the list of
  the others, with \<^verbatim>\<open>NaN\<close> for a field that is not a number. A text of two fields is
  minutes and seconds; of any other text the first field alone is returned.
\<close>

datatype timetext = Falsy | Fields jsnum "jsnum list"

fun timeToSecondsText :: "timetext \<Rightarrow> jsnum" where
  "timeToSecondsText Falsy = Num 0"
| "timeToSecondsText (Fields p [s]) = jsAdd (jsMul p (Num 60)) s"
| "timeToSecondsText (Fields p rest) = p"

text \<open>The text \<^verbatim>\<open>M:SS\<close> of two whole-number fields, as \<^verbatim>\<open>timeToSeconds\<close> reads it.\<close>

definition textOf :: "timestr \<Rightarrow> timetext" where
  "textOf t = (case t of MSS m s \<Rightarrow> Fields (Num (of_int m)) [Num (of_int s)])"

section \<open>Segments and the merger (lines 1702-1760)\<close>

datatype source = Ai | Friend | Scenery | FriendScenery | Food | Safety

record segment =
  start :: timestr
  end' :: timestr
  source :: "source option"
  score :: "rat option"
  friendName :: "string option"
  isHighQuality :: bool
  isNearFriend :: bool

text \<open>A string is truthy when it is present and not empty; \<open>a || b\<close> on strings.\<close>

definition truthyStr :: "string option \<Rightarrow> bool" where
  "truthyStr s = (case s of None \<Rightarrow> False | Some n \<Rightarrow> n \<noteq> [])"

definition orStr :: "string option \<Rightarrow> string option \<Rightarrow> string option" where
  "orStr a b = (if truthyStr a then a else b)"

text \<open>\<open>x || d\<close> on an optional number: a missing value and zero both give the default.\<close>

definition orNum :: "rat option \<Rightarrow> rat \<Rightarrow> rat" where
  "orNum x d = (case x of None \<Rightarrow> d | Some v \<Rightarrow> if v = 0 then d else v)"

definition segStart :: "segment \<Rightarrow> int" where
  "segStart seg = timeToSeconds (start seg)"

definition segEnd :: "segment \<Rightarrow> int" where
  "segEnd seg = timeToSeconds (end' seg)"

definition getSourcePriority :: "source option \<Rightarrow> int" where
  "getSourcePriority src =
     (case src of
        Some Safety \<Rightarrow> 100
      | Some FriendScenery \<Rightarrow> 95
      | Some Friend \<Rightarrow> 80
      | Some Food \<Rightarrow> 60
      | Some Scenery \<Rightarrow> 40
      | _ \<Rightarrow> 10)"

text \<open>The body of the merging branch of the loop: \<open>next\<close> is folded into \<open>current\<close>.\<close>

definition mergeInto :: "segment \<Rightarrow> segment \<Rightarrow> segment" where
  "mergeInto current next =
     (let c1 = (if segEnd next > segEnd current then current\<lparr>end' := end' next\<rparr> else current);
          sources = filter (\<lambda>s. s \<noteq> None) [source c1, source next];
          hasFriend = (Some Friend \<in> set sources \<or> Some FriendScenery \<in> set sources);
          hasScenery = (Some Scenery \<in> set sources \<or> Some FriendScenery \<in> set sources);
          c2 = (if hasFriend \<and> hasScenery
                then c1\<lparr>source := Some FriendScenery,
                        friendName := orStr (friendName c1) (friendName next),
                        isHighQuality := (isHighQuality c1 \<or> isHighQuality next)\<rparr>
                else if getSourcePriority (source next) > getSourcePriority (source c1)
                then c1\<lparr>source := source next,
                        friendName := orStr (friendName next) (friendName c1)\<rparr>
                else c1)
      in c2\<lparr>isHighQuality := (isHighQuality c2 \<or> isHighQuality next),
             score := Some (max (orNum (score c2) 0) (orNum (score next) 0))\<rparr>)"

fun mergeLoop :: "segment \<Rightarrow> segment list \<Rightarrow> segment list" where
  "mergeLoop current [] = [current]"
| "mergeLoop current (next # rest) =
     (if segStart next \<le> segEnd current + 2
      then mergeLoop (mergeInto current next) rest
      else current # mergeLoop next rest)"

definition mergeOverlappingSegments :: "segment list \<Rightarrow> segment list" where
  "mergeOverlappingSegments segments =
     (case segments of
        [] \<Rightarrow> []
      | [s] \<Rightarrow> [s]
      | s # rest \<Rightarrow> mergeLoop s rest)"

text \<open>\<open>segments.sort((a, b) => timeToSeconds(a.start) - timeToSeconds(b.start))\<close>: stable.\<close>

definition sortByStart :: "segment list \<Rightarrow> segment list" where
  "sortByStart segments = sort_key segStart segments"

definition covers :: "int \<Rightarrow> segment \<Rightarrow> bool" where
  "covers t seg = (t \<ge> segStart seg \<and> t \<le> segEnd seg)"

section \<open>Coverage passes (lines 1762-1980)\<close>

record occurrence =
  ts_time :: timestr
  ts_duration :: "rat option"

record friend =
  friend_name :: string
  friend_timestamp :: "timestr option"
  friend_duration :: "rat option"
  friend_timestamps :: "occurrence list option"

record scene =
  scene_timestamp :: "timestr option"
  scene_stayDuration :: "rat option"
  scene_isNearFriend :: bool

datatype alertType = Warning | Danger

record alert =
  alert_timestamp :: "timestr option"
  alert_type :: alertType

record habit =
  habit_timestamp :: "timestr option"

definition newSegment :: "rat \<Rightarrow> rat \<Rightarrow> segment" where
  "newSegment newSegStart newSegEnd =
     \<lparr>start = secondsToTime newSegStart, end' = secondsToTime newSegEnd,
      source = None, score = None, friendName = None,
      isHighQuality = False, isNearFriend = False\<rparr>"

definition allTimestamps :: "friend \<Rightarrow> occurrence list" where
  "allTimestamps f =
     (let single = (case friend_timestamp f of
                      Some t \<Rightarrow> [\<lparr>ts_time = t, ts_duration = friend_duration f\<rparr>]
                    | None \<Rightarrow> [])
      in case friend_timestamps f of
           Some tss \<Rightarrow> if length tss > 0 then tss else single
         | None \<Rightarrow> single)"

definition friendDurationOf :: "friend \<Rightarrow> occurrence \<Rightarrow> rat" where
  "friendDurationOf f ts = orNum (ts_duration ts) (orNum (friend_duration f) 5)"

definition friendSegment :: "rat \<Rightarrow> rat \<Rightarrow> friend \<Rightarrow> occurrence \<Rightarrow> segment" where
  "friendSegment videoDuration bufferSeconds f ts =
     (let friendTime = of_int (timeToSeconds (ts_time ts));
          newSegStart = max 0 (friendTime - bufferSeconds);
          newSegEnd = min videoDuration (friendTime + max (friendDurationOf f ts) bufferSeconds)
      in (newSegment newSegStart newSegEnd)\<lparr>source := Some Friend,
            friendName := Some (friend_name f), isHighQuality := False\<rparr>)"

definition friendStep :: "rat \<Rightarrow> rat \<Rightarrow> friend \<Rightarrow> segment list \<Rightarrow> occurrence \<Rightarrow> segment list" where
  "friendStep videoDuration bufferSeconds f segments ts =
     (if \<not> list_ex (covers (timeToSeconds (ts_time ts))) segments
      then segments @ [friendSegment videoDuration bufferSeconds f ts]
      else segments)"

definition addFriendSegments :: "friend list \<Rightarrow> segment list \<Rightarrow> rat \<Rightarrow> rat \<Rightarrow> segment list" where
  "addFriendSegments friends highlightTimestamps videoDuration bufferSeconds =
     foldl (\<lambda>segments f. foldl (friendStep videoDuration bufferSeconds f) segments (allTimestamps f))
       highlightTimestamps friends"

definition ensureFriendsInHighlights :: "friend list \<Rightarrow> segment list \<Rightarrow> rat \<Rightarrow> rat \<Rightarrow> segment list" where
  "ensureFriendsInHighlights friends highlightTimestamps videoDuration bufferSeconds =
     (if friends = [] then highlightTimestamps
      else mergeOverlappingSegments (sortByStart
             (addFriendSegments friends highlightTimestamps videoDuration bufferSeconds)))"

text \<open>\<open>x >= c\<close> on an optional number: a missing value compares false.\<close>

definition geNum :: "rat option \<Rightarrow> rat \<Rightarrow> bool" where
  "geNum x c = (case x of None \<Rightarrow> False | Some v \<Rightarrow> v \<ge> c)"

definition significant :: "scene \<Rightarrow> bool" where
  "significant s = (geNum (scene_stayDuration s) 3 \<and> scene_timestamp s \<noteq> None)"

definition sceneTimeOf :: "scene \<Rightarrow> int" where
  "sceneTimeOf s = (case scene_timestamp s of None \<Rightarrow> 0 | Some t \<Rightarrow> timeToSeconds t)"

fun findIndex :: "('a \<Rightarrow> bool) \<Rightarrow> 'a list \<Rightarrow> nat option" where
  "findIndex p [] = None"
| "findIndex p (x # xs) =
     (if p x then Some 0 else case findIndex p xs of None \<Rightarrow> None | Some i \<Rightarrow> Some (Suc i))"

definition markScenery :: "bool \<Rightarrow> segment \<Rightarrow> segment" where
  "markScenery isHQ existingSeg =
     (let s1 = (if source existingSeg = Some Friend then existingSeg\<lparr>source := Some FriendScenery\<rparr>
                else if source existingSeg = None \<or> source existingSeg = Some Ai
                then existingSeg\<lparr>source := Some Scenery\<rparr>
                else existingSeg)
      in if isHQ then s1\<lparr>isHighQuality := True\<rparr> else s1)"

definition hasNearbyFriend :: "rat \<Rightarrow> rat \<Rightarrow> segment list \<Rightarrow> bool" where
  "hasNearbyFriend newSegStart newSegEnd segments =
     list_ex (\<lambda>seg.
        if source seg \<noteq> Some Friend \<and> source seg \<noteq> Some FriendScenery then False
        else (let gapAfter = of_int (segStart seg) - newSegEnd;
                  gapBefore = newSegStart - of_int (segEnd seg)
              in (gapAfter \<ge> 0 \<and> gapAfter \<le> 10) \<or> (gapBefore \<ge> 0 \<and> gapBefore \<le> 10)))
       segments"

definition scenerySegment :: "rat \<Rightarrow> rat \<Rightarrow> segment list \<Rightarrow> scene \<Rightarrow> segment" where
  "scenerySegment videoDuration bufferSeconds segments sc =
     (let sceneTime = of_int (sceneTimeOf sc);
          sceneDuration = orNum (scene_stayDuration sc) 5;
          clipDuration = min sceneDuration 5;
          newSegStart = max 0 (sceneTime - bufferSeconds);
          newSegEnd = min videoDuration (sceneTime + clipDuration)
      in (newSegment newSegStart newSegEnd)\<lparr>source := Some Scenery,
            isHighQuality := (sceneDuration \<ge> 5),
            isNearFriend := hasNearbyFriend newSegStart newSegEnd segments\<rparr>)"

definition sceneryStep :: "rat \<Rightarrow> rat \<Rightarrow> segment list \<Rightarrow> scene \<Rightarrow> segment list" where
  "sceneryStep videoDuration bufferSeconds segments sc =
     (case findIndex (covers (sceneTimeOf sc)) segments of
        Some i \<Rightarrow> segments[i := markScenery (orNum (scene_stayDuration sc) 5 \<ge> 5) (segments ! i)]
      | None \<Rightarrow> segments @ [scenerySegment videoDuration bufferSeconds segments sc])"

definition addScenerySegments :: "scene list \<Rightarrow> segment list \<Rightarrow> rat \<Rightarrow> rat \<Rightarrow> segment list" where
  "addScenerySegments scenery highlightTimestamps videoDuration bufferSeconds =
     foldl (sceneryStep videoDuration bufferSeconds) highlightTimestamps (filter significant scenery)"

definition ensureSceneryInHighlights :: "scene list \<Rightarrow> segment list \<Rightarrow> rat \<Rightarrow> rat \<Rightarrow> segment list" where
  "ensureSceneryInHighlights scenery highlightTimestamps videoDuration bufferSeconds =
     (if scenery = [] then highlightTimestamps
      else mergeOverlappingSegments (sortByStart
             (addScenerySegments scenery highlightTimestamps videoDuration bufferSeconds)))"

definition foodSegment :: "rat \<Rightarrow> rat \<Rightarrow> int \<Rightarrow> segment" where
  "foodSegment videoDuration bufferSeconds foodTime =
     (let clipDuration = 3;
          newSegStart = max 0 (of_int foodTime - bufferSeconds);
          newSegEnd = min videoDuration (of_int foodTime + clipDuration)
      in (newSegment newSegStart newSegEnd)\<lparr>source := Some Food\<rparr>)"

definition foodStep :: "rat \<Rightarrow> rat \<Rightarrow> segment list \<Rightarrow> habit \<Rightarrow> segment list" where
  "foodStep videoDuration bufferSeconds segments h =
     (case habit_timestamp h of
        None \<Rightarrow> segments
      | Some ts \<Rightarrow>
          if \<not> list_ex (covers (timeToSeconds ts)) segments
          then segments @ [foodSegment videoDuration bufferSeconds (timeToSeconds ts)]
          else segments)"

definition ensureFoodInHighlights :: "habit list \<Rightarrow> segment list \<Rightarrow> rat \<Rightarrow> rat \<Rightarrow> segment list" where
  "ensureFoodInHighlights dietaryHabits highlightTimestamps videoDuration bufferSeconds =
     (if dietaryHabits = [] then highlightTimestamps
      else mergeOverlappingSegments (sortByStart
             (foldl (foodStep videoDuration bufferSeconds) highlightTimestamps dietaryHabits)))"

definition safetySegment :: "rat \<Rightarrow> rat \<Rightarrow> alert \<Rightarrow> int \<Rightarrow> segment" where
  "safetySegment videoDuration bufferSeconds a alertTime =
     (let clipDuration = (if alert_type a = Danger then 4 else 3);
          newSegStart = max 0 (of_int alertTime - bufferSeconds);
          newSegEnd = min videoDuration (of_int alertTime + clipDuration)
      in (newSegment newSegStart newSegEnd)\<lparr>source := Some Safety\<rparr>)"

definition safetyStep :: "rat \<Rightarrow> rat \<Rightarrow> segment list \<Rightarrow> alert \<Rightarrow> segment list" where
  "safetyStep videoDuration bufferSeconds segments a =
     (case alert_timestamp a of
        None \<Rightarrow> segments
      | Some ts \<Rightarrow>
          if \<not> list_ex (covers (timeToSeconds ts)) segments
          then segments @ [safetySegment videoDuration bufferSeconds a (timeToSeconds ts)]
          else segments)"

definition addSafetySegments :: "alert list \<Rightarrow> segment list \<Rightarrow> rat \<Rightarrow> rat \<Rightarrow> segment list" where
  "addSafetySegments safetyAlerts highlightTimestamps videoDuration bufferSeconds =
     foldl (safetyStep videoDuration bufferSeconds) highlightTimestamps safetyAlerts"

definition ensureSafetyAlertsInHighlights :: "alert list \<Rightarrow> segment list \<Rightarrow> rat \<Rightarrow> rat \<Rightarrow> segment list" where
  "ensureSafetyAlertsInHighlights safetyAlerts highlightTimestamps videoDuration bufferSeconds =
     (if safetyAlerts = [] then highlightTimestamps
      else mergeOverlappingSegments (sortByStart
             (addSafetySegments safetyAlerts highlightTimestamps videoDuration bufferSeconds)))"

section \<open>Timeline mapper (lines 2040-2059)\<close>

fun mapLoop :: "int \<Rightarrow> int \<Rightarrow> segment list \<Rightarrow> timestr option" where
  "mapLoop t highlightOffset [] = None"
| "mapLoop t highlightOffset (seg # rest) =
     (if t \<ge> segStart seg \<and> t \<le> segEnd seg
      then Some (secondsToTime (of_int (highlightOffset + (t - segStart seg))))
      else mapLoop t (highlightOffset + (segEnd seg - segStart seg)) rest)"

definition mapToHighlightTime :: "timestr \<Rightarrow> segment list \<Rightarrow> timestr option" where
  "mapToHighlightTime originalTimeStr highlightTimestamps =
     (if highlightTimestamps = [] then None
      else mapLoop (timeToSeconds originalTimeStr) 0 highlightTimestamps)"

definition calculateDuration :: "segment list \<Rightarrow> int" where
  "calculateDuration segs = foldl (\<lambda>sum seg. sum + (segEnd seg - segStart seg)) 0 segs"

text \<open>
  The same sum over candidates whose time texts are of any form, and the test
  \<^verbatim>\<open>> 120\<close> that guards the first trim (line 2209) and the final trim (line 2307).
\<close>

record rawClip =
  rawStart :: timetext
  rawEnd :: timetext

definition calculateDurationText :: "rawClip list \<Rightarrow> jsnum" where
  "calculateDurationText segs =
     foldl (\<lambda>sum seg. jsAdd sum (jsSub (timeToSecondsText (rawEnd seg))
                                       (timeToSecondsText (rawStart seg))))
           (Num 0) segs"

definition exceedsBudget :: "rawClip list \<Rightarrow> bool" where
  "exceedsBudget segs = jsGreater (calculateDurationText segs) (Num 120)"

section \<open>Budget trimming and fallback (processVideo, lines 2191-2427)\<close>

record analysis =
  highlightTimestamps :: "segment list"
  friends :: "friend list"
  scenery :: "scene list"
  dietaryHabits :: "habit list"
  safetyAlerts :: "alert list"

definition clipDurationOf :: "segment \<Rightarrow> int" where
  "clipDurationOf clip = segEnd clip - segStart clip"

subsection \<open>Stage 1: trim the raw candidates by score\<close>

definition friendTimes :: "friend list \<Rightarrow> int list" where
  "friendTimes fs =
     filter (\<lambda>t. t \<noteq> 0)
       (concat (map (\<lambda>f. case friend_timestamps f of
                             Some tss \<Rightarrow> map (\<lambda>t. timeToSeconds (ts_time t)) tss
                           | None \<Rightarrow> [case friend_timestamp f of
                                        None \<Rightarrow> 0 | Some t \<Rightarrow> timeToSeconds t]) fs))"

definition highQualitySceneryTimes :: "scene list \<Rightarrow> int list" where
  "highQualitySceneryTimes sc =
     map sceneTimeOf
       (filter (\<lambda>s. geNum (scene_stayDuration s) 5 \<and> scene_timestamp s \<noteq> None) sc)"

definition coversImportantContent :: "analysis \<Rightarrow> segment \<Rightarrow> bool" where
  "coversImportantContent a clip =
     (list_ex (\<lambda>t. covers t clip) (friendTimes (friends a)) \<or>
      list_ex (\<lambda>t. covers t clip) (highQualitySceneryTimes (scenery a)))"

definition getEnhancedScore :: "analysis \<Rightarrow> segment \<Rightarrow> rat" where
  "getEnhancedScore a clip =
     (if coversImportantContent a clip then orNum (score clip) 0 + 50 else orNum (score clip) 0)"

definition stage1Step :: "segment list \<times> int \<Rightarrow> segment \<Rightarrow> segment list \<times> int" where
  "stage1Step st clip =
     (case st of (kept, currentDuration) \<Rightarrow>
        if currentDuration + clipDurationOf clip \<le> 120
        then (kept @ [clip], currentDuration + clipDurationOf clip)
        else (kept, currentDuration))"

definition stage1Trim :: "analysis \<Rightarrow> segment list \<Rightarrow> segment list" where
  "stage1Trim a highlights =
     (if calculateDuration highlights > 120
      then sortByStart (fst (foldl stage1Step ([], 0)
                               (sort_key (\<lambda>c. - getEnhancedScore a c) highlights)))
      else highlights)"

definition capStayDuration :: "scene \<Rightarrow> scene" where
  "capStayDuration sc =
     (case scene_stayDuration sc of
        Some d \<Rightarrow> if d > 15 then sc\<lparr>scene_stayDuration := Some 15\<rparr> else sc
      | None \<Rightarrow> sc)"

subsection \<open>Stage 2: the final layered trim\<close>

definition MAX_HIGHLIGHT_DURATION :: int where
  "MAX_HIGHLIGHT_DURATION = 120"

definition getPriority :: "segment \<Rightarrow> int" where
  "getPriority clip =
     (if source clip = Some Safety then 100
      else if source clip = Some FriendScenery then 95
      else if source clip = Some Scenery \<and> isNearFriend clip then 85
      else if source clip = Some Friend then 80
      else if source clip = Some Scenery \<and> isHighQuality clip then 75
      else if source clip = Some Food then 60
      else if source clip = Some Scenery then 50
      else if orNum (score clip) 0 \<ge> 15 then 30
      else if orNum (score clip) 0 \<ge> 10 then 20
      else 10)"

record trimState =
  kept :: "segment list"
  currentDuration :: int
  friendsIncluded :: "string list"

definition isOnlyFriendClip :: "trimState \<Rightarrow> segment \<Rightarrow> bool" where
  "isOnlyFriendClip st clip =
     (source clip = Some Friend \<and>
      (case friendName clip of
         None \<Rightarrow> False
       | Some n \<Rightarrow> n \<noteq> [] \<and> n \<notin> set (friendsIncluded st)))"

definition compressTo :: "segment \<Rightarrow> int \<Rightarrow> segment" where
  "compressTo clip remaining =
     clip\<lparr>end' := secondsToTime (of_int (segStart clip + max 3 remaining))\<rparr>"

text \<open>
  The compression branch: the clip as it is afterwards, and the duration the loop
  charges for it.
\<close>

definition compress :: "trimState \<Rightarrow> segment \<Rightarrow> segment \<times> int" where
  "compress st clip =
     (let clipDuration = clipDurationOf clip in
      if currentDuration st + clipDuration > MAX_HIGHLIGHT_DURATION
      then (let remaining = MAX_HIGHLIGHT_DURATION - currentDuration st in
            if source clip = Some Safety \<and> remaining \<ge> 3
            then (compressTo clip remaining, remaining)
            else if isOnlyFriendClip st clip
            then (if remaining \<ge> 3 then (compressTo clip remaining, remaining)
                  else (clip, clipDuration))
            else (clip, clipDuration))
      else (clip, clipDuration))"

definition trimStep :: "trimState \<Rightarrow> segment \<Rightarrow> trimState" where
  "trimStep st clip =
     (case compress st clip of (clip', clipDuration) \<Rightarrow>
        if currentDuration st + clipDuration \<le> MAX_HIGHLIGHT_DURATION \<or>
           (isOnlyFriendClip st clip \<and>
            currentDuration st + clipDuration \<le> MAX_HIGHLIGHT_DURATION + 5)
        then \<lparr>kept = kept st @ [clip'],
              currentDuration = currentDuration st + clipDuration,
              friendsIncluded = (case friendName clip of
                                   None \<Rightarrow> friendsIncluded st
                                 | Some n \<Rightarrow> if n \<noteq> [] then friendsIncluded st @ [n]
                                            else friendsIncluded st)\<rparr>
        else st)"

definition stage2Trim :: "segment list \<Rightarrow> segment list" where
  "stage2Trim highlights =
     (if calculateDuration highlights > MAX_HIGHLIGHT_DURATION
      then sortByStart (kept (foldl trimStep
                                \<lparr>kept = [], currentDuration = 0, friendsIncluded = []\<rparr>
                                (sort_key (\<lambda>c. - getPriority c) highlights)))
      else highlights)"

subsection \<open>Scenery zero-coverage fallback\<close>

text \<open>
  The comparator of the source orders by the near-friend flag first and by the dwell
  second, both descending; the sort is stable.
\<close>

definition bestSceneKey :: "scene \<Rightarrow> int \<times> rat" where
  "bestSceneKey s = (- (if scene_isNearFriend s then 1 else 0), - orNum (scene_stayDuration s) 0)"

definition sceneryFallback :: "scene list \<Rightarrow> segment list \<Rightarrow> rat \<Rightarrow> segment list" where
  "sceneryFallback sc highlights videoDuration =
     (let significantScenery = filter significant sc in
      if significantScenery = [] then highlights
      else if list_ex (\<lambda>s. list_ex (covers (sceneTimeOf s)) highlights) significantScenery
      then highlights
      else (let bestScene = hd (sort_key bestSceneKey significantScenery);
                t = of_int (sceneTimeOf bestScene);
                clipLen = min (orNum (scene_stayDuration bestScene) 3) 5;
                start = max 0 (t - 2);
                end = min videoDuration (t + clipLen)
            in if of_int (calculateDuration highlights) + (end - start)
                    \<le> of_int (MAX_HIGHLIGHT_DURATION + 5)
               then sortByStart (highlights @
                      [(newSegment start end)\<lparr>source := Some Scenery, isHighQuality := True\<rparr>])
               else highlights))"

subsection \<open>The highlight part of processVideo\<close>

definition coveredHighlights :: "analysis \<Rightarrow> rat \<Rightarrow> segment list" where
  "coveredHighlights a videoDuration =
     (let h0 = stage1Trim a (highlightTimestamps a);
          sc = map capStayDuration (scenery a);
          h1 = ensureFriendsInHighlights (friends a) h0 videoDuration 3;
          h2 = ensureSceneryInHighlights sc h1 videoDuration 2;
          h3 = ensureFoodInHighlights (dietaryHabits a) h2 videoDuration 1
      in ensureSafetyAlertsInHighlights (safetyAlerts a) h3 videoDuration 1)"

definition trimmedHighlights :: "analysis \<Rightarrow> rat \<Rightarrow> segment list" where
  "trimmedHighlights a videoDuration = stage2Trim (coveredHighlights a videoDuration)"

definition processHighlights :: "analysis \<Rightarrow> rat \<Rightarrow> segment list" where
  "processHighlights a videoDuration =
     sceneryFallback (map capStayDuration (scenery a)) (trimmedHighlights a videoDuration)
       videoDuration"

section \<open>Rewriting annotation times (mapAndFilterForHighlight, lines 1679-1700)\<close>

text \<open>
  An annotation item with its time field, the sibling field that keeps the original
  time, the mapped marker and the remaining fields.
\<close>

record 'a item =
  timeField :: "timestr option"
  originalField :: "timestr option"
  isMapped :: bool
  payload :: 'a

definition sourceTimeOf :: "'a item \<Rightarrow> timestr option" where
  "sourceTimeOf it = (case originalField it of Some t \<Rightarrow> Some t | None \<Rightarrow> timeField it)"

definition mapItem :: "segment list \<Rightarrow> 'a item \<Rightarrow> 'a item list" where
  "mapItem highlights it =
     (if timeField it = None then []
      else case sourceTimeOf it of
             None \<Rightarrow> []
           | Some sourceTime \<Rightarrow>
               (case mapToHighlightTime sourceTime highlights of
                  None \<Rightarrow> []
                | Some mappedTime \<Rightarrow>
                    [it\<lparr>originalField := Some sourceTime,
                        timeField := Some mappedTime,
                        isMapped := True\<rparr>]))"

definition mapAndFilterForHighlight :: "'a item list \<Rightarrow> segment list \<Rightarrow> 'a item list" where
  "mapAndFilterForHighlight arr highlights =
     (if highlights = [] then [] else concat (map (mapItem highlights) arr))"

section \<open>Mood normaliser (lines 1517-1580)\<close>

text \<open>
  A field of a mood entry as the provider sent it: missing, present but not a number
  (it becomes \<^verbatim>\<open>NaN\<close> and the entry is filtered out), or a proper value.
\<close>

datatype 'a field = Missing | Malformed | Given 'a

record moodItem =
  name :: "timestr field"
  val :: "rat field"

record point =
  sec :: int
  pvalue :: int

text \<open>
  Seconds and values of control points are whole numbers and the differences of lines
  1526 and 1528 are exact; the quotient, the product and the sum of lines 1528-1529
  are rounded to doubles.
\<close>

fun interpLoop :: "point \<Rightarrow> point list \<Rightarrow> int \<Rightarrow> rat" where
  "interpLoop left [] targetSec = of_int (pvalue left)"
| "interpLoop left (right # rest) targetSec =
     (if targetSec \<le> sec right
      then (let span = sec right - sec left in
            if span \<le> 0 then of_int (pvalue right)
            else (let ratio = toDouble (of_int (targetSec - sec left) / of_int span)
                  in toDouble (of_int (pvalue left)
                               + toDouble (of_int (pvalue right - pvalue left) * ratio))))
      else interpLoop right rest targetSec)"

definition interpolateMoodValue :: "point list \<Rightarrow> int \<Rightarrow> rat" where
  "interpolateMoodValue points targetSec =
     (case points of
        [] \<Rightarrow> 50
      | [p] \<Rightarrow> of_int (pvalue p)
      | p # rest \<Rightarrow>
          if targetSec \<le> sec p then of_int (pvalue p)
          else interpLoop p rest targetSec)"

definition safeDurationOf :: "rat \<Rightarrow> int" where
  "safeDurationOf videoDuration = max 1 (mathRound videoDuration)"

definition cleanItem :: "int \<Rightarrow> moodItem \<Rightarrow> point list" where
  "cleanItem safeDuration it =
     (case name it of
        Malformed \<Rightarrow> []
      | nm \<Rightarrow>
          (case val it of
             Malformed \<Rightarrow> []
           | v \<Rightarrow>
               [\<lparr>sec = clamp (mathRound (of_int (timeToSeconds
                                (case nm of Given t \<Rightarrow> t | _ \<Rightarrow> MSS 0 0)))) 0 safeDuration,
                 pvalue = clamp (mathRound (case v of Given x \<Rightarrow> x | _ \<Rightarrow> 50)) 0 100\<rparr>]))"

definition cleaned :: "moodItem list \<Rightarrow> int \<Rightarrow> point list" where
  "cleaned moodData safeDuration = sort_key sec (concat (map (cleanItem safeDuration) moodData))"

text \<open>
  The \<^verbatim>\<open>Map\<close> of the source keeps the insertion order of its keys and overwrites the
  value of a key that is set again, as \<open>AList.update\<close> does.
\<close>

definition deduped :: "point list \<Rightarrow> point list" where
  "deduped cl =
     sort_key sec
       (map (\<lambda>(s, v). \<lparr>sec = s, pvalue = v\<rparr>)
            (foldl (\<lambda>m p. AList.update (sec p) (pvalue p) m) [] cl))"

definition forceBoundaries :: "point list \<Rightarrow> int \<Rightarrow> point list" where
  "forceBoundaries points safeDuration =
     (case points of
        [] \<Rightarrow> [\<lparr>sec = 0, pvalue = 50\<rparr>, \<lparr>sec = safeDuration, pvalue = 50\<rparr>]
      | p0 # rest \<Rightarrow>
          (let points1 = (if sec p0 > 0 then \<lparr>sec = 0, pvalue = pvalue p0\<rparr> # points
                          else p0\<lparr>sec := 0\<rparr> # rest)
           in if sec (last points1) < safeDuration
              then points1 @ [\<lparr>sec = safeDuration, pvalue = pvalue (last points1)\<rparr>]
              else butlast points1 @ [(last points1)\<lparr>sec := safeDuration\<rparr>]))"

definition controlPoints :: "moodItem list option \<Rightarrow> rat \<Rightarrow> point list" where
  "controlPoints moodData videoDuration =
     (let safeDuration = safeDurationOf videoDuration
      in forceBoundaries
           (deduped (cleaned (case moodData of None \<Rightarrow> [] | Some md \<Rightarrow> md) safeDuration))
           safeDuration)"

definition targetCountOf :: "int \<Rightarrow> int" where
  "targetCountOf safeDuration = clamp (mathRound (of_int safeDuration / 12)) 20 30"

definition gridSec :: "int \<Rightarrow> int \<Rightarrow> int \<Rightarrow> int" where
  "gridSec safeDuration targetCount i =
     (if i = targetCount - 1 then safeDuration
      else mathRound (of_int (i * safeDuration) / of_int (targetCount - 1)))"

record sample =
  sname :: timestr
  svalue :: int

definition sampleAt :: "point list \<Rightarrow> int \<Rightarrow> int \<Rightarrow> int \<Rightarrow> sample" where
  "sampleAt points safeDuration targetCount i =
     (let s = gridSec safeDuration targetCount i
      in \<lparr>sname = secondsToTime (of_int s),
          svalue = clamp (mathRound (interpolateMoodValue points s)) 0 100\<rparr>)"

definition normalizeMoodData :: "moodItem list option \<Rightarrow> rat \<Rightarrow> sample list" where
  "normalizeMoodData moodData videoDuration =
     (let safeDuration = safeDurationOf videoDuration;
          points = controlPoints moodData videoDuration;
          targetCount = targetCountOf safeDuration
      in map (sampleAt points safeDuration targetCount) [0..targetCount - 1])"

section \<open>Properties stated about cuts\<close>

definition startsAscending :: "segment list \<Rightarrow> bool" where
  "startsAscending segs = sorted (map segStart segs)"

text \<open>\<open>apart a b\<close>: \<open>b\<close> starts more than the merge tolerance of 2 seconds after \<open>a\<close> ends.\<close>

definition apart :: "segment \<Rightarrow> segment \<Rightarrow> bool" where
  "apart a b = (segEnd a + 2 < segStart b)"

fun pairwiseApart :: "segment list \<Rightarrow> bool" where
  "pairwiseApart [] = True"
| "pairwiseApart (x # xs) = (list_all (\<lambda>y. apart x y \<or> apart y x) xs \<and> pairwiseApart xs)"

definition spans :: "segment list \<Rightarrow> (timestr \<times> timestr) list" where
  "spans segs = map (\<lambda>s. (start s, end' s)) segs"

definition wellFormed :: "segment \<Rightarrow> bool" where
  "wellFormed seg = (segStart seg \<le> segEnd seg)"

text \<open>What the final trim loop maintains: the charged duration bounds the kept one.\<close>

definition trimInv :: "trimState \<Rightarrow> bool" where
  "trimInv st = (calculateDuration (kept st) \<le> currentDuration st \<and> currentDuration st \<le> 125)"

definition rawItem :: "'a item \<Rightarrow> bool" where
  "rawItem it = (originalField it = None)"

definition survives :: "segment list \<Rightarrow> 'a item \<Rightarrow> bool" where
  "survives hs it = (mapItem hs it \<noteq> [])"

definition remap :: "segment list \<Rightarrow> 'a item list \<Rightarrow> 'a item list" where
  "remap hs arr = mapAndFilterForHighlight arr hs"

text \<open>
  Mood entries that the normaliser discards; the line through two control points; the
  cleaned and the deduplicated control points of an input.
\<close>

definition allDiscarded :: "moodItem list option \<Rightarrow> bool" where
  "allDiscarded moodData =
     (case moodData of
        None \<Rightarrow> True
      | Some md \<Rightarrow> list_all (\<lambda>it. name it = Malformed \<or> val it = Malformed) md)"

text \<open>A control point whose value lies within 0 and 100.\<close>

definition inRange :: "point \<Rightarrow> bool" where
  "inRange p = (0 \<le> pvalue p \<and> pvalue p \<le> 100)"

text \<open>
  A mood entry lands on the same second as an entry with the time text \<open>t\<close>: its own
  time, or 0:00 if it has none, is clamped to the same second of \<open>[0, D]\<close>.
\<close>

definition sameSecond :: "int \<Rightarrow> timestr \<Rightarrow> moodItem \<Rightarrow> bool" where
  "sameSecond D t it =
     (case name it of
        Given t' \<Rightarrow> clamp (timeToSeconds t') 0 D = clamp (timeToSeconds t) 0 D
      | Missing \<Rightarrow> clamp (timeToSeconds t) 0 D = 0
      | Malformed \<Rightarrow> False)"

text \<open>
  What lines 1526-1529 compute at second \<open>t\<close> between the control points \<open>l\<close> and
  \<open>r\<close>: the value of \<open>l\<close> plus the difference of the values times the part of the way
  from \<open>l\<close> to \<open>r\<close>, in double precision.
\<close>

definition linearAt :: "point \<Rightarrow> point \<Rightarrow> int \<Rightarrow> rat" where
  "linearAt l r t =
     toDouble (of_int (pvalue l)
               + toDouble (of_int (pvalue r - pvalue l)
                           * toDouble (of_int (t - sec l) / of_int (sec r - sec l))))"

text \<open>The same value in exact arithmetic: the point at second \<open>t\<close> of the line through \<open>l\<close> and \<open>r\<close>.\<close>

definition linearExact :: "point \<Rightarrow> point \<Rightarrow> int \<Rightarrow> rat" where
  "linearExact l r t =
     of_int (pvalue l) + of_int (pvalue r - pvalue l) * (of_int (t - sec l) / of_int (sec r - sec l))"

definition pairOf :: "point \<Rightarrow> int \<times> int" where
  "pairOf p = (sec p, pvalue p)"

definition pointOf :: "int \<times> int \<Rightarrow> point" where
  "pointOf kv = \<lparr>sec = fst kv, pvalue = snd kv\<rparr>"

definition cleanedOf :: "moodItem list \<Rightarrow> rat \<Rightarrow> point list" where
  "cleanedOf md videoDuration = cleaned md (safeDurationOf videoDuration)"

definition dedupedOf :: "moodItem list \<Rightarrow> rat \<Rightarrow> point list" where
  "dedupedOf md videoDuration = deduped (cleanedOf md videoDuration)"

text \<open>Two segments are separated when one starts more than 2 seconds after the other ends.\<close>

definition separated :: "segment \<Rightarrow> segment \<Rightarrow> bool" where
  "separated a b = (apart a b \<or> apart b a)"


definition spanOf :: "segment \<Rightarrow> timestr \<times> timestr" where
  "spanOf s = (start s, end' s)"



section \<open>Concrete inputs\<close>

definition candidate :: "timestr \<Rightarrow> timestr \<Rightarrow> segment" where
  "candidate a b = \<lparr>start = a, end' = b, source = None, score = None, friendName = None,
                      isHighQuality = False, isNearFriend = False\<rparr>"

text \<open>
  Scenario 1 of the specification: one candidate 0:00-0:10, one occurrence of a subject
  at 1:00 lasting 4 seconds, source duration 90 seconds.
\<close>

definition scenario1 :: analysis where
  "scenario1 =
     \<lparr>highlightTimestamps = [candidate (MSS 0 0) (MSS 0 10)],
      friends = [\<lparr>friend_name = ''Rex'', friend_timestamp = Some (MSS 1 0),
                  friend_duration = None,
                  friend_timestamps = Some [\<lparr>ts_time = MSS 1 0, ts_duration = Some 4\<rparr>]\<rparr>],
      scenery = [], dietaryHabits = [], safetyAlerts = []\<rparr>"

text \<open>
  One candidate 0:00-1:58 and two danger alerts, at 1:59 and at 3:20, in a source of
  300 seconds.
\<close>

definition twoAlerts :: analysis where
  "twoAlerts =
     \<lparr>highlightTimestamps = [candidate (MSS 0 0) (MSS 1 58)],
      friends = [], scenery = [], dietaryHabits = [],
      safetyAlerts = [\<lparr>alert_timestamp = Some (MSS 1 59), alert_type = Danger\<rparr>,
                      \<lparr>alert_timestamp = Some (MSS 3 20), alert_type = Danger\<rparr>]\<rparr>"

text \<open>A safety segment 0:55-1:00 followed by a segment 0:57-1:04 of the subject Rex.\<close>

definition safetyThenFriend :: "segment list" where
  "safetyThenFriend =
     [(candidate (MSS 0 55) (MSS 1 0))\<lparr>source := Some Safety\<rparr>,
      (candidate (MSS 0 57) (MSS 1 4))\<lparr>source := Some Friend, friendName := Some ''Rex''\<rparr>]"

definition twoSegments :: "segment list" where
  "twoSegments = [candidate (MSS 0 0) (MSS 0 10), candidate (MSS 0 57) (MSS 1 4)]"

text \<open>Three mood points as the normaliser leaves them, at 0:05, 0:30 and 1:02.\<close>

definition moodPoints :: "int item list" where
  "moodPoints =
     [\<lparr>timeField = Some (MSS 0 5), originalField = None, isMapped = False, payload = 40\<rparr>,
      \<lparr>timeField = Some (MSS 0 30), originalField = None, isMapped = False, payload = 55\<rparr>,
      \<lparr>timeField = Some (MSS 1 2), originalField = None, isMapped = False, payload = 80\<rparr>]"

definition pt :: "int \<Rightarrow> int \<Rightarrow> point" where
  "pt s v = \<lparr>sec = s, pvalue = v\<rparr>"

text \<open>Scenario 4 of the specification: the single mood point 80 at 0:30.\<close>

definition oneMood :: "moodItem list" where
  "oneMood = [\<lparr>name = Given (MSS 0 30), val = Given 80\<rparr>]"

text \<open>
  Four mood entries out of order: two at 0:16, of which the later one counts, one of
  value 0 at 0:06 and one at 0:40 without a value.
\<close>

definition steepMoods :: "moodItem list" where
  "steepMoods = [\<lparr>name = Given (MSS 0 16), val = Given 80\<rparr>,
                 \<lparr>name = Given (MSS 0 6), val = Given 0\<rparr>,
                 \<lparr>name = Given (MSS 0 16), val = Given 45\<rparr>,
                 \<lparr>name = Given (MSS 0 40), val = Missing\<rparr>]"

text \<open>Two mood entries that do not parse.\<close>

definition garbledMoods :: "moodItem list" where
  "garbledMoods = [\<lparr>name = Malformed, val = Given 70\<rparr>,
                   \<lparr>name = Given (MSS 0 10), val = Malformed\<rparr>]"

text \<open>Two candidates out of order that overlap, and no annotated event.\<close>

definition unsortedCandidates :: analysis where
  "unsortedCandidates =
     \<lparr>highlightTimestamps = [candidate (MSS 0 5) (MSS 0 15), candidate (MSS 0 0) (MSS 0 10)],
      friends = [], scenery = [], dietaryHabits = [], safetyAlerts = []\<rparr>"

text \<open>
  Candidates 0:00-0:10 and 0:13-2:00, the subject Rex at 2:03 for 5 seconds and a
  scenery moment at 0:10 with a dwell of 5 seconds.
\<close>

definition sceneryBeforeFriend :: analysis where
  "sceneryBeforeFriend =
     \<lparr>highlightTimestamps = [candidate (MSS 0 0) (MSS 0 10), candidate (MSS 0 13) (MSS 2 0)],
      friends = [\<lparr>friend_name = ''Rex'', friend_timestamp = Some (MSS 2 3),
                  friend_duration = None,
                  friend_timestamps = Some [\<lparr>ts_time = MSS 2 3, ts_duration = Some 5\<rparr>]\<rparr>],
      scenery = [\<lparr>scene_timestamp = Some (MSS 0 10), scene_stayDuration = Some 5,
                  scene_isNearFriend = False\<rparr>],
      dietaryHabits = [], safetyAlerts = []\<rparr>"






text \<open>
  Two candidates as they arrive: 0:00-4:00, and one from 5:00 whose end text
  \<^verbatim>\<open>5:1O\<close> has a letter in its seconds field, which is not a number.
\<close>

definition garbledCandidates :: "rawClip list" where
  "garbledCandidates =
     [\<lparr>rawStart = textOf (MSS 0 0), rawEnd = textOf (MSS 4 0)\<rparr>,
      \<lparr>rawStart = textOf (MSS 5 0), rawEnd = Fields (Num 5) [NaN]\<rparr>]"

section \<open>Doubles\<close>

text \<open>Whole numbers below \<open>2^53\<close> are doubles.\<close>

lemma toDouble_0: "toDouble 0 = 0"
  by (simp add: toDouble_def)

lemma roundEven_of_int: "roundEven (of_int k) = k"
  by (simp add: roundEven_def)

lemma toDouble_of_int:
  assumes "\<bar>n\<bar> < 2 ^ 53"
  shows "toDouble (of_int n) = of_int n"
proof (cases "n = 0")
  case True
  then show ?thesis by (simp add: toDouble_def)
next
  case False
  then have a: "0 < \<bar>n\<bar>" by simp
  have "bitlen \<bar>n\<bar> \<le> 53"
    using assms by (simp add: bitlen_le_iff_power)
  moreover have "1 \<le> bitlen \<bar>n\<bar>" using a by (simp add: bitlen_ge_iff_power)
  moreover have "ilog2 \<bar>of_int n\<bar> = bitlen \<bar>n\<bar> - 1"
  proof -
    have "1 \<le> \<bar>n\<bar>" using a by simp
    then have "(of_int 1 :: rat) \<le> of_int \<bar>n\<bar>" by (simp only: of_int_le_iff)
    then have "(1::rat) \<le> \<bar>of_int n\<bar>" by simp
    moreover have "\<lfloor>\<bar>of_int n :: rat\<bar>\<rfloor> = \<bar>n\<bar>"
      by (simp only: of_int_abs[symmetric] floor_of_int)
    ultimately show ?thesis by (simp add: ilog2_def)
  qed
  ultimately have "0 \<le> - (ilog2 \<bar>of_int n\<bar> - 52)" by simp
  then obtain k where "- (ilog2 \<bar>of_int n\<bar> - 52) = int k" by (rule nonneg_int_cases)
  then have e: "ilog2 \<bar>of_int n\<bar> - 52 = - int k" by simp
  have p: "pow2 (- int k) = 1 / 2 ^ k" by (cases "k = 0") (simp_all add: pow2_def)
  have "of_int n / pow2 (- int k) = (of_int (n * 2 ^ k) :: rat)" by (simp add: p)
  then have "roundEven (of_int n / pow2 (- int k)) = n * 2 ^ k" by (simp only: roundEven_of_int)
  then show ?thesis using False by (simp add: toDouble_def e Let_def p)
qed

text \<open>Rounding to a double changes a number by at most one part in \<open>2^53\<close>.\<close>

lemma pow2_pos: "0 < pow2 e"
  by (simp add: pow2_def)

lemma pow2_diff: "pow2 (k - int n) = pow2 k / 2 ^ n"
proof (cases "0 \<le> k - int n")
  case True
  define a where "a = nat (k - int n)"
  have "nat k = a + n" using True by (simp add: a_def)
  then have "(2::rat) ^ nat k = 2 ^ a * 2 ^ n" by (simp add: power_add)
  then show ?thesis using True by (simp add: pow2_def a_def)
next
  case False
  define a where "a = nat (- (k - int n))"
  show ?thesis
  proof (cases "0 \<le> k")
    case True
    have "n = a + nat k" using True False by (simp add: a_def)
    then have "(2::rat) ^ n = 2 ^ a * 2 ^ nat k" by (simp add: power_add)
    then show ?thesis using True False by (simp add: pow2_def a_def)
  next
    case k: False
    have "a = nat (- k) + n" using k by (simp add: a_def)
    then have "(2::rat) ^ a = 2 ^ nat (- k) * 2 ^ n" by (simp add: power_add)
    then show ?thesis using k False by (simp add: pow2_def a_def)
  qed
qed

lemma ilog2_lower:
  assumes "0 < y"
  shows "pow2 (ilog2 y) \<le> y"
proof (cases "1 \<le> y")
  case True
  then have f: "0 < \<lfloor>y\<rfloor>" by simp
  then have b: "1 \<le> bitlen \<lfloor>y\<rfloor>" by (simp add: bitlen_ge_iff_power)
  have "2 ^ nat (bitlen \<lfloor>y\<rfloor> - 1) \<le> \<lfloor>y\<rfloor>" using bitlen_bounds[OF f] by simp
  then have "(of_int (2 ^ nat (bitlen \<lfloor>y\<rfloor> - 1)) :: rat) \<le> of_int \<lfloor>y\<rfloor>"
    by (simp only: of_int_le_iff)
  also have "\<dots> \<le> y" by simp
  finally show ?thesis using True b by (simp add: ilog2_def pow2_def)
next
  case False
  then have y1: "y < 1" by simp
  let ?n = "\<lceil>1 / y\<rceil> - 1"
  have "1 < 1 / y" using assms y1 by simp
  then have n: "0 < ?n" by (simp add: less_ceiling_iff)
  then have b: "1 \<le> bitlen ?n" by (simp add: bitlen_ge_iff_power)
  have "?n < 2 ^ nat (bitlen ?n)" using bitlen_bounds[OF n] by simp
  then have "\<lceil>1 / y\<rceil> \<le> 2 ^ nat (bitlen ?n)" by simp
  then have "1 / y \<le> of_int (2 ^ nat (bitlen ?n))" by (simp only: ceiling_le_iff)
  then have "1 / y \<le> 2 ^ nat (bitlen ?n)" by simp
  then have "1 \<le> 2 ^ nat (bitlen ?n) * y" using assms by (simp add: field_simps)
  then have "1 / 2 ^ nat (bitlen ?n) \<le> y" by (simp add: field_simps)
  moreover have "pow2 (ilog2 y) = 1 / 2 ^ nat (bitlen ?n)"
    using False b by (simp add: ilog2_def pow2_def)
  ultimately show ?thesis by simp
qed

lemma roundEven_error: "\<bar>of_int (roundEven m) - m\<bar> \<le> 1 / 2"
proof -
  have "of_int \<lfloor>m\<rfloor> \<le> m" "m < of_int \<lfloor>m\<rfloor> + 1" by linarith+
  then show ?thesis by (auto simp: roundEven_def Let_def abs_le_iff)
qed

lemma toDouble_error: "\<bar>toDouble x - x\<bar> \<le> \<bar>x\<bar> / 2 ^ 53"
proof (cases "x = 0")
  case True
  then show ?thesis by (simp add: toDouble_def)
next
  case False
  define k where "k = ilog2 \<bar>x\<bar>"
  define e where "e = pow2 (k - 52)"
  have e: "0 < e" by (simp add: e_def pow2_pos)
  have "pow2 k \<le> \<bar>x\<bar>" unfolding k_def using False by (intro ilog2_lower) simp
  moreover have "e = pow2 k / 2 ^ 52" unfolding e_def using pow2_diff[of k 52] by simp
  ultimately have lo: "e * 2 ^ 52 \<le> \<bar>x\<bar>" by simp
  have "toDouble x - x = (of_int (roundEven (x / e)) - x / e) * e"
    using False e by (simp add: toDouble_def Let_def k_def e_def field_simps)
  then have "\<bar>toDouble x - x\<bar> = \<bar>of_int (roundEven (x / e)) - x / e\<bar> * e"
    using e by (simp add: abs_mult)
  also have "\<dots> \<le> 1 / 2 * e"
    using roundEven_error[of "x / e"] e by (intro mult_right_mono) simp_all
  also have "\<dots> \<le> \<bar>x\<bar> / 2 ^ 53" using lo by simp
  finally show ?thesis .
qed


lemma toDouble_1: "toDouble 1 = 1"
  using toDouble_of_int[of 1] by simp

lemma toDouble_small:
  "0 \<le> n \<Longrightarrow> n \<le> 100 \<Longrightarrow> toDouble (of_int n) = of_int n"
  "- 100 \<le> n \<Longrightarrow> n \<le> 100 \<Longrightarrow> toDouble (of_int n) = of_int n"
  by (intro toDouble_of_int; simp)+

section \<open>Time texts\<close>

lemma floor_minus_60: "\<lfloor>x - 60 * rat_of_int k\<rfloor> = \<lfloor>x\<rfloor> - 60 * k"
proof -
  have "x - 60 * rat_of_int k = x - of_int (60 * k)" by simp
  then show ?thesis by (simp only: floor_diff_of_int)
qed

lemma tts_stt_le: "timeToSeconds (secondsToTime x) \<le> \<lfloor>x\<rfloor>"
proof -
  have "\<lfloor>x / 60\<rfloor> \<le> \<lceil>x / 60\<rceil>" by (simp add: floor_le_ceiling)
  then show ?thesis
    by (simp add: timeToSeconds_def secondsToTime_def jsRem_def floor_minus_60)
qed

lemma tts_stt_nonneg: "0 \<le> x \<Longrightarrow> timeToSeconds (secondsToTime x) = \<lfloor>x\<rfloor>"
  by (simp add: timeToSeconds_def secondsToTime_def jsRem_def floor_minus_60)

lemma tts_stt_of_int: "0 \<le> n \<Longrightarrow> timeToSeconds (secondsToTime (of_int n)) = n"
  by (simp add: tts_stt_nonneg)

section \<open>Scenario 1\<close>

text \<open>
  C6. For the input of scenario 1 the friends pass inserts the segment 0:57-1:04 after
  the candidate 0:00-0:10, the final cut is these two segments and totals 17 seconds,
  and the original time 1:02 (62 seconds) maps to the highlight time 0:15.
\<close>

theorem scenario1_cut:
  "ensureFriendsInHighlights (friends scenario1) (highlightTimestamps scenario1) 90 3 =
     [candidate (MSS 0 0) (MSS 0 10),
      (candidate (MSS 0 57) (MSS 1 4))\<lparr>source := Some Friend, friendName := Some ''Rex''\<rparr>]
   \<and> spans (processHighlights scenario1 90) = [(MSS 0 0, MSS 0 10), (MSS 0 57, MSS 1 4)]
   \<and> calculateDuration (processHighlights scenario1 90) = 17
   \<and> timeToSeconds (MSS 1 2) = 62
   \<and> mapToHighlightTime (MSS 1 2) (processHighlights scenario1 90) = Some (MSS 0 15)
   \<and> timeToSeconds (MSS 0 15) = 10 + (62 - 57)"
  by code_simp

section \<open>The merger on a safety segment followed by a subject segment\<close>

text \<open>
  What one merging step does to each field: the end is the later one, the flag is the
  disjunction, the score the maximum, the tag the combined one when both kinds are
  present and else the one of higher rank. The name of the other side is taken in the
  first two branches only.
\<close>

lemma mergeInto_fields:
  "segStart (mergeInto c n) = segStart c
   \<and> segEnd (mergeInto c n) = max (segEnd c) (segEnd n)
   \<and> isHighQuality (mergeInto c n) = (isHighQuality c \<or> isHighQuality n)
   \<and> score (mergeInto c n) = Some (max (orNum (score c) 0) (orNum (score n) 0))
   \<and> source (mergeInto c n) =
       (if (source c \<in> {Some Friend, Some FriendScenery} \<or> source n \<in> {Some Friend, Some FriendScenery})
            \<and> (source c \<in> {Some Scenery, Some FriendScenery} \<or> source n \<in> {Some Scenery, Some FriendScenery})
        then Some FriendScenery
        else if getSourcePriority (source n) > getSourcePriority (source c) then source n
        else source c)
   \<and> friendName (mergeInto c n) =
       (if (source c \<in> {Some Friend, Some FriendScenery} \<or> source n \<in> {Some Friend, Some FriendScenery})
            \<and> (source c \<in> {Some Scenery, Some FriendScenery} \<or> source n \<in> {Some Scenery, Some FriendScenery})
        then orStr (friendName c) (friendName n)
        else if getSourcePriority (source n) > getSourcePriority (source c)
        then orStr (friendName n) (friendName c)
        else friendName c)
   \<and> getSourcePriority (Some Safety) = 100 \<and> getSourcePriority (Some FriendScenery) = 95
   \<and> getSourcePriority (Some Friend) = 80 \<and> getSourcePriority (Some Food) = 60
   \<and> getSourcePriority (Some Scenery) = 40 \<and> getSourcePriority (Some Ai) = 10
   \<and> getSourcePriority None = 10"
  by (auto simp: mergeInto_def Let_def segStart_def segEnd_def getSourcePriority_def)

text \<open>
  C4. Merging the safety segment 0:55-1:00 with the following segment 0:57-1:04 of the
  subject Rex gives one safety segment 0:55-1:04 that carries no subject name: the
  branch that keeps the current source does not take the name of the other side.
\<close>

theorem merge_drops_subject_name:
  "mergeOverlappingSegments safetyThenFriend =
     [(candidate (MSS 0 55) (MSS 1 4))\<lparr>source := Some Safety, score := Some 0\<rparr>]
   \<and> map friendName (mergeOverlappingSegments safetyThenFriend) = [None]
   \<and> map friendName safetyThenFriend = [None, Some ''Rex'']"
  by code_simp

section \<open>The final trim on two safety segments\<close>

text \<open>
  C2. With one candidate 0:00-1:58 and danger alerts at 1:59 and 3:20, the coverage
  passes give the safety segments 0:00-2:03 and 3:19-3:24. The final trim compresses
  the first to 0:00-2:00 and drops the second: the alert at 3:20 (200 seconds) is in
  no final segment, although the cut has 120 seconds and three more seconds would stay
  within 125.
\<close>

theorem trim_drops_safety_segment:
  "spans (coveredHighlights twoAlerts 300) = [(MSS 0 0, MSS 2 3), (MSS 3 19, MSS 3 24)]
   \<and> map source (coveredHighlights twoAlerts 300) = [Some Safety, Some Safety]
   \<and> spans (processHighlights twoAlerts 300) = [(MSS 0 0, MSS 2 0)]
   \<and> timeToSeconds (MSS 3 20) = 200
   \<and> \<not> list_ex (covers 200) (processHighlights twoAlerts 300)
   \<and> calculateDuration (processHighlights twoAlerts 300) + 3 \<le> 125"
  by code_simp

section \<open>The timeline mapper is monotonic\<close>

lemma mapLoop_Cons:
  "mapLoop t off (seg # rest) =
     (if covers t seg then Some (secondsToTime (of_int (off + (t - segStart seg))))
      else mapLoop t (off + (segEnd seg - segStart seg)) rest)"
  by (simp add: covers_def)

lemma mapLoop_covered:
  "mapLoop t off segs = Some a \<Longrightarrow> list_ex (covers t) segs"
  by (induction segs arbitrary: off) (auto simp: covers_def split: if_splits)

lemma mapLoop_lower:
  "list_all wellFormed segs \<Longrightarrow> 0 \<le> off \<Longrightarrow>
   mapLoop t off segs = Some a \<Longrightarrow> off \<le> timeToSeconds a"
proof (induction segs arbitrary: off)
  case Nil
  then show ?case by simp
next
  case (Cons seg rest)
  show ?case
  proof (cases "covers t seg")
    case True
    with Cons.prems have "a = secondsToTime (of_int (off + (t - segStart seg)))"
      by (simp add: mapLoop_Cons del: mapLoop.simps)
    moreover have "0 \<le> off + (t - segStart seg)"
      using True Cons.prems(2) by (simp add: covers_def)
    ultimately show ?thesis
      using True by (simp add: tts_stt_of_int covers_def del: of_int_add of_int_diff)
  next
    case False
    with Cons.prems have m: "mapLoop t (off + (segEnd seg - segStart seg)) rest = Some a"
      by (simp add: mapLoop_Cons del: mapLoop.simps)
    have wf: "segStart seg \<le> segEnd seg"
      using Cons.prems(1) by (simp add: wellFormed_def)
    have wfr: "list_all wellFormed rest"
      using Cons.prems(1) by simp
    have "0 \<le> off + (segEnd seg - segStart seg)"
      using wf Cons.prems(2) by simp
    from Cons.IH[OF wfr this m] wf show ?thesis by linarith
  qed
qed

lemma mapLoop_mono:
  "list_all wellFormed segs \<Longrightarrow> sorted (map segStart segs) \<Longrightarrow>
   0 \<le> off \<Longrightarrow> tA \<le> tB \<Longrightarrow>
   mapLoop tA off segs = Some a \<Longrightarrow> mapLoop tB off segs = Some b \<Longrightarrow>
   timeToSeconds a \<le> timeToSeconds b"
proof (induction segs arbitrary: off)
  case Nil
  then show ?case by simp
next
  case (Cons seg rest)
  let ?off' = "off + (segEnd seg - segStart seg)"
  have wf: "segStart seg \<le> segEnd seg"
    using Cons.prems(1) by (simp add: wellFormed_def)
  have wfr: "list_all wellFormed rest"
    using Cons.prems(1) by simp
  have off': "0 \<le> ?off'" using wf Cons.prems(3) by simp
  have srt: "sorted (map segStart rest)" and lo: "\<forall>r\<in>set rest. segStart seg \<le> segStart r"
    using Cons.prems(2) by auto
  consider (both) "covers tA seg" "covers tB seg"
    | (first) "covers tA seg" "\<not> covers tB seg"
    | (second) "\<not> covers tA seg" "covers tB seg"
    | (none) "\<not> covers tA seg" "\<not> covers tB seg" by blast
  then show ?case
  proof cases
    case both
    then have a: "a = secondsToTime (of_int (off + (tA - segStart seg)))"
      and b: "b = secondsToTime (of_int (off + (tB - segStart seg)))"
      using Cons.prems(5,6) by (simp_all add: mapLoop_Cons del: mapLoop.simps)
    have "0 \<le> off + (tA - segStart seg)" "0 \<le> off + (tB - segStart seg)"
      using both Cons.prems(3) by (simp_all add: covers_def)
    then show ?thesis using a b Cons.prems(4)
      by (simp add: tts_stt_of_int del: of_int_add of_int_diff)
  next
    case first
    then have a: "a = secondsToTime (of_int (off + (tA - segStart seg)))"
      and b: "mapLoop tB ?off' rest = Some b"
      using Cons.prems(5,6) by (simp_all add: mapLoop_Cons del: mapLoop.simps)
    have nn: "0 \<le> off + (tA - segStart seg)"
      using first Cons.prems(3) by (simp add: covers_def)
    have "timeToSeconds a = off + (tA - segStart seg)"
      unfolding a using nn by (rule tts_stt_of_int)
    moreover have "?off' \<le> timeToSeconds b" using mapLoop_lower[OF wfr off' b] .
    moreover have "tA \<le> segEnd seg" using first by (simp add: covers_def)
    ultimately show ?thesis by simp
  next
    case second
    then have "mapLoop tA ?off' rest = Some a" using Cons.prems(5)
      by (simp add: mapLoop_Cons del: mapLoop.simps)
    then have "list_ex (covers tA) rest" by (rule mapLoop_covered)
    then obtain r where "r \<in> set rest" "covers tA r" by (auto simp: list_ex_iff)
    then have "segStart seg \<le> tA" using lo by (auto simp: covers_def)
    moreover have "tA \<le> segEnd seg" using second Cons.prems(4) by (simp add: covers_def)
    ultimately show ?thesis using second by (simp add: covers_def)
  next
    case none
    then have "mapLoop tA ?off' rest = Some a" "mapLoop tB ?off' rest = Some b"
      using Cons.prems(5,6) by (simp_all add: mapLoop_Cons del: mapLoop.simps)
    then show ?thesis using Cons.IH[OF wfr srt off' Cons.prems(4)] by simp
  qed
qed

text \<open>
  C7. For a list of segments sorted ascending by start, each with start no later than
  its end, and original times A before B: if both map into the highlight, the mapped
  time of A is not after the mapped time of B. Pairwise disjointness of the list is
  not needed for this.
\<close>

theorem mapToHighlightTime_monotonic:
  assumes "list_all wellFormed segs"
    and "startsAscending segs"
    and "timeToSeconds A < timeToSeconds B"
    and "mapToHighlightTime A segs = Some a"
    and "mapToHighlightTime B segs = Some b"
  shows "timeToSeconds a \<le> timeToSeconds b"
proof -
  from assms(4,5) have "mapLoop (timeToSeconds A) 0 segs = Some a"
    "mapLoop (timeToSeconds B) 0 segs = Some b"
    by (simp_all add: mapToHighlightTime_def split: if_splits)
  with assms(1,2,3) show ?thesis
    using mapLoop_mono[of segs 0 "timeToSeconds A" "timeToSeconds B" a b]
    by (simp add: startsAscending_def)
qed

theorem mapToHighlightTime_monotonic_witness:
  "list_all wellFormed twoSegments \<and> startsAscending twoSegments
   \<and> pairwiseApart twoSegments
   \<and> timeToSeconds (MSS 0 5) < timeToSeconds (MSS 1 2)
   \<and> mapToHighlightTime (MSS 0 5) twoSegments = Some (MSS 0 5)
   \<and> mapToHighlightTime (MSS 1 2) twoSegments = Some (MSS 0 15)
   \<and> timeToSeconds (MSS 0 5) \<le> timeToSeconds (MSS 0 15)"
proof -
  have h1: "list_all wellFormed twoSegments" by code_simp
  have h2: "startsAscending twoSegments" by code_simp
  have h3: "timeToSeconds (MSS 0 5) < timeToSeconds (MSS 1 2)" by code_simp
  have h4: "mapToHighlightTime (MSS 0 5) twoSegments = Some (MSS 0 5)" by code_simp
  have h5: "mapToHighlightTime (MSS 1 2) twoSegments = Some (MSS 0 15)" by code_simp
  have h6: "pairwiseApart twoSegments" by code_simp
  from mapToHighlightTime_monotonic[OF h1 h2 h3 h4 h5] h1 h2 h3 h4 h5 h6
  show ?thesis by blast
qed

section \<open>Rewriting annotation times is idempotent\<close>

lemma mapItem_cases:
  assumes "y \<in> set (mapItem hs x)"
  obtains src m where "sourceTimeOf x = Some src" "mapToHighlightTime src hs = Some m"
    "y = x\<lparr>originalField := Some src, timeField := Some m, isMapped := True\<rparr>"
proof (cases "timeField x = None")
  case True
  with assms show ?thesis by (simp add: mapItem_def)
next
  case False
  show ?thesis
  proof (cases "sourceTimeOf x")
    case None
    with assms False show ?thesis by (simp add: mapItem_def)
  next
    case (Some src)
    show ?thesis
    proof (cases "mapToHighlightTime src hs")
      case None
      with assms False Some show ?thesis by (simp add: mapItem_def)
    next
      case (Some m)
      with assms False \<open>sourceTimeOf x = Some src\<close> that show ?thesis
        by (simp add: mapItem_def)
    qed
  qed
qed

lemma mapItem_fixed: "y \<in> set (mapItem hs x) \<Longrightarrow> mapItem hs y = [y]"
  by (erule mapItem_cases) (simp add: mapItem_def sourceTimeOf_def)

lemma mapItem_original: "y \<in> set (mapItem hs x) \<Longrightarrow> originalField y = sourceTimeOf x \<and> isMapped y"
  by (erule mapItem_cases) simp

lemma concat_map_fixed: "(\<And>y. y \<in> set ys \<Longrightarrow> f y = [y]) \<Longrightarrow> concat (map f ys) = ys"
  by (induction ys) auto

lemma mapAndFilter_twice:
  "mapAndFilterForHighlight (mapAndFilterForHighlight arr hs) hs = mapAndFilterForHighlight arr hs"
proof (cases "hs = []")
  case True
  then show ?thesis by (simp add: mapAndFilterForHighlight_def)
next
  case False
  have "concat (map (mapItem hs) (concat (map (mapItem hs) arr))) = concat (map (mapItem hs) arr)"
    by (rule concat_map_fixed) (auto dest: mapItem_fixed)
  with False show ?thesis by (simp add: mapAndFilterForHighlight_def)
qed

lemma mapAndFilter_funpow:
  "((\<lambda>xs. mapAndFilterForHighlight xs hs) ^^ Suc n) arr = mapAndFilterForHighlight arr hs"
  by (induction n) (simp_all add: mapAndFilter_twice)

lemma mapItem_singleton: "mapItem hs x = [] \<or> (\<exists>y. mapItem hs x = [y])"
  by (auto simp: mapItem_def split: option.splits)

lemma mapAndFilter_original:
  "map originalField (mapAndFilterForHighlight arr hs) =
     map sourceTimeOf (filter (\<lambda>x. mapItem hs x \<noteq> []) arr)"
proof (cases "hs = []")
  case True
  then show ?thesis
    by (simp add: mapAndFilterForHighlight_def mapItem_def mapToHighlightTime_def
        split: option.splits)
next
  case False
  have "map originalField (concat (map (mapItem hs) arr)) =
        map sourceTimeOf (filter (\<lambda>x. mapItem hs x \<noteq> []) arr)"
  proof (induction arr)
    case Nil
    then show ?case by simp
  next
    case (Cons x xs)
    from mapItem_singleton[of hs x] show ?case
    proof
      assume "mapItem hs x = []"
      with Cons show ?thesis by simp
    next
      assume "\<exists>y. mapItem hs x = [y]"
      then obtain y where y: "mapItem hs x = [y]" by blast
      then have "originalField y = sourceTimeOf x" using mapItem_original[of y hs x] by simp
      with y Cons show ?thesis by simp
    qed
  qed
  with False show ?thesis by (simp add: mapAndFilterForHighlight_def)
qed

text \<open>
  C8. Mapping the result of the highlight mapping again, any number of times, gives the
  result of the first mapping. The sibling field of every surviving item holds the
  source time of the input item: the sibling field it came with or, for an item that
  came without one, its time field as given.
\<close>

theorem mapAndFilter_idempotent:
  "remap hs (remap hs arr) = remap hs arr
   \<and> (remap hs ^^ Suc n) arr = remap hs arr
   \<and> map originalField ((remap hs ^^ Suc n) arr) = map sourceTimeOf (filter (survives hs) arr)
   \<and> (list_all rawItem arr \<longrightarrow>
       map originalField ((remap hs ^^ Suc n) arr) = map timeField (filter (survives hs) arr))
   \<and> list_all isMapped ((remap hs ^^ Suc n) arr)"
proof -
  have raw: "list_all rawItem arr \<Longrightarrow>
             map sourceTimeOf (filter (survives hs) arr) = map timeField (filter (survives hs) arr)"
    by (induction arr) (auto simp: sourceTimeOf_def rawItem_def)
  have r: "remap hs = (\<lambda>xs. mapAndFilterForHighlight xs hs)"
    by (rule ext) (simp add: remap_def)
  have s: "survives hs = (\<lambda>x. mapItem hs x \<noteq> [])"
    by (rule ext) (simp add: survives_def)
  have m: "list_all isMapped (mapAndFilterForHighlight arr hs)"
    by (auto simp: mapAndFilterForHighlight_def list_all_iff dest: mapItem_original)
  show ?thesis
    unfolding r s
    using mapAndFilter_twice[of arr hs] mapAndFilter_funpow[where hs = hs and n = n and arr = arr]
      mapAndFilter_original[of arr hs] raw m
    by (simp add: s del: funpow.simps)
qed

theorem mapAndFilter_idempotent_witness:
  "list_all rawItem moodPoints
   \<and> map timeField moodPoints = [Some (MSS 0 5), Some (MSS 0 30), Some (MSS 1 2)]
   \<and> map timeField (remap twoSegments moodPoints) = [Some (MSS 0 5), Some (MSS 0 15)]
   \<and> remap twoSegments (remap twoSegments moodPoints) = remap twoSegments moodPoints
   \<and> map originalField ((remap twoSegments ^^ Suc 2) moodPoints)
       = [Some (MSS 0 5), Some (MSS 1 2)]"
proof -
  have h: "list_all rawItem moodPoints" by code_simp
  have t: "map timeField moodPoints = [Some (MSS 0 5), Some (MSS 0 30), Some (MSS 1 2)]"
    by code_simp
  have m: "map timeField (remap twoSegments moodPoints) = [Some (MSS 0 5), Some (MSS 0 15)]"
    by code_simp
  have f: "map timeField (filter (survives twoSegments) moodPoints)
           = [Some (MSS 0 5), Some (MSS 1 2)]"
    by code_simp
  have a: "remap twoSegments (remap twoSegments moodPoints) = remap twoSegments moodPoints"
    using mapAndFilter_idempotent[of twoSegments moodPoints 2] by blast
  have c: "map originalField ((remap twoSegments ^^ Suc 2) moodPoints)
           = map timeField (filter (survives twoSegments) moodPoints)"
    using mapAndFilter_idempotent[of twoSegments moodPoints 2] h by blast
  from h t m a c[unfolded f] show ?thesis by blast
qed

section \<open>The duration bound\<close>

lemma calculateDuration_sum: "calculateDuration segs = sum_list (map clipDurationOf segs)"
proof -
  have "foldl (\<lambda>sum seg. sum + (segEnd seg - segStart seg)) acc segs
        = acc + sum_list (map clipDurationOf segs)" for acc
    by (induction segs arbitrary: acc) (simp_all add: clipDurationOf_def)
  then show ?thesis by (simp add: calculateDuration_def)
qed

lemma sum_list_insort_key:
  "sum_list (map g (insort_key f x xs)) = g x + sum_list (map g xs)" for g :: "'a \<Rightarrow> int"
  by (induction xs) simp_all

lemma sum_list_sort_key:
  "sum_list (map g (sort_key f xs)) = sum_list (map g xs)" for g :: "'a \<Rightarrow> int"
  by (induction xs) (simp_all add: sum_list_insort_key)

lemma calculateDuration_sort_key: "calculateDuration (sort_key f segs) = calculateDuration segs"
  by (simp add: calculateDuration_sum sum_list_sort_key)

lemma calculateDuration_append:
  "calculateDuration (xs @ [x]) = calculateDuration xs + clipDurationOf x"
  by (simp add: calculateDuration_sum)

lemma compress_duration:
  "compress st clip = (clip', d) \<Longrightarrow> clipDurationOf clip' \<le> d"
proof -
  have le: "segEnd (compressTo clip r) \<le> segStart clip + max 3 r" for r
    using tts_stt_le[of "of_int (segStart clip + max 3 r)"]
    by (simp add: compressTo_def segEnd_def del: of_int_add)
  have st: "segStart (compressTo clip r) = segStart clip" for r
    by (simp add: compressTo_def segStart_def)
  have c: "3 \<le> r \<Longrightarrow> clipDurationOf (compressTo clip r) \<le> r" for r
    using le[of r] st[of r] by (simp add: clipDurationOf_def)
  assume "compress st clip = (clip', d)"
  then show ?thesis
    by (auto simp: compress_def Let_def c split: if_splits)
qed

lemma trimStep_inv: "trimInv st \<Longrightarrow> trimInv (trimStep st clip)"
proof -
  assume inv: "trimInv st"
  obtain clip' d where c: "compress st clip = (clip', d)" by (cases "compress st clip")
  from compress_duration[OF c] inv show ?thesis
    by (auto simp: trimStep_def c trimInv_def calculateDuration_append MAX_HIGHLIGHT_DURATION_def)
qed

lemma foldl_trimStep_inv: "trimInv st \<Longrightarrow> trimInv (foldl trimStep st clips)"
  by (induction clips arbitrary: st) (simp_all add: trimStep_inv)

lemma stage2Trim_bound: "calculateDuration (stage2Trim highlights) \<le> 125"
proof (cases "calculateDuration highlights > MAX_HIGHLIGHT_DURATION")
  case True
  have "trimInv \<lparr>kept = [], currentDuration = 0, friendsIncluded = []\<rparr>"
    by (simp add: trimInv_def calculateDuration_def)
  then have "trimInv (foldl trimStep \<lparr>kept = [], currentDuration = 0, friendsIncluded = []\<rparr>
                        (sort_key (\<lambda>c. - getPriority c) highlights))"
    by (rule foldl_trimStep_inv)
  then have "calculateDuration (kept (foldl trimStep
                 \<lparr>kept = [], currentDuration = 0, friendsIncluded = []\<rparr>
                 (sort_key (\<lambda>c. - getPriority c) highlights))) \<le> 125"
    by (simp add: trimInv_def)
  with True show ?thesis
    by (simp add: stage2Trim_def sortByStart_def calculateDuration_sort_key)
next
  case False
  then show ?thesis by (simp add: stage2Trim_def MAX_HIGHLIGHT_DURATION_def)
qed

lemma sceneryFallback_bound:
  assumes "calculateDuration highlights \<le> 125"
  shows "calculateDuration (sceneryFallback sc highlights videoDuration) \<le> 125"
proof -
  have key: "clipDurationOf ((newSegment (max 0 (of_int t - 2)) e)\<lparr>source := Some Scenery, isHighQuality := True\<rparr>)
             \<le> \<lfloor>e - max 0 (of_int t - 2)\<rfloor>" for t :: int and e :: rat
  proof -
    have s: "max (0::rat) (of_int t - 2) = of_int (max 0 (t - 2))" by simp
    have "timeToSeconds (secondsToTime (max 0 (of_int t - 2))) = max 0 (t - 2)"
      unfolding s by (rule tts_stt_of_int) simp
    moreover have "timeToSeconds (secondsToTime e) \<le> \<lfloor>e\<rfloor>" by (rule tts_stt_le)
    moreover have "\<lfloor>e - of_int (max 0 (t - 2))\<rfloor> = \<lfloor>e\<rfloor> - max 0 (t - 2)" by (rule floor_diff_of_int)
    ultimately show ?thesis
      unfolding s by (simp add: clipDurationOf_def newSegment_def segStart_def segEnd_def)
  qed
  have step: "of_int c + (e - s) \<le> (125::rat) \<Longrightarrow> d \<le> \<lfloor>e - s\<rfloor> \<Longrightarrow> c + d \<le> 125" for c d :: int and e s :: rat
  proof -
    assume a: "of_int c + (e - s) \<le> (125::rat)" and b: "d \<le> \<lfloor>e - s\<rfloor>"
    have "rat_of_int \<lfloor>e - s\<rfloor> \<le> e - s" by (rule of_int_floor_le)
    with a have "rat_of_int c + rat_of_int \<lfloor>e - s\<rfloor> \<le> 125" by linarith
    then have "(of_int (c + \<lfloor>e - s\<rfloor>)::rat) \<le> of_int 125" by simp
    then have "c + \<lfloor>e - s\<rfloor> \<le> 125" by (simp only: of_int_le_iff)
    with b show ?thesis by simp
  qed
  show ?thesis
    using assms
    by (auto simp: sceneryFallback_def Let_def sortByStart_def calculateDuration_sort_key
        calculateDuration_append MAX_HIGHLIGHT_DURATION_def intro!: step[OF _ key])
qed

text \<open>
  For segments and annotations whose time texts have two whole-number fields, whatever
  the annotation set and the source duration, the durations of the segments of the
  final cut add up to at most 125 seconds.
\<close>

lemma total_duration_bounded: "calculateDuration (processHighlights a videoDuration) \<le> 125"
  unfolding processHighlights_def trimmedHighlights_def
  by (rule sceneryFallback_bound) (rule stage2Trim_bound)

text \<open>
  On a text with two whole-number fields \<^verbatim>\<open>timeToSeconds\<close> is the whole number of
  seconds of the model above; a field that is not a number makes it \<^verbatim>\<open>NaN\<close>, and one
  such text among the candidates makes the sum \<^verbatim>\<open>NaN\<close> and the budget test false.
\<close>

lemma timeToSecondsText_textOf:
  assumes "\<bar>m\<bar> < 2 ^ 46" and "\<bar>s\<bar> < 2 ^ 46"
  shows "timeToSecondsText (textOf (MSS m s)) = Num (of_int (timeToSeconds (MSS m s)))"
proof -
  have a: "\<bar>m * 60\<bar> < 2 ^ 53" using assms(1) by (simp add: abs_mult)
  have b: "\<bar>m * 60 + s\<bar> < 2 ^ 53" using assms by (simp add: abs_mult)
  have "toDouble (of_int m * 60) = of_int (m * 60)"
    using toDouble_of_int[OF a] by simp
  moreover have "toDouble (of_int (m * 60) + of_int s) = of_int (m * 60 + s)"
    using toDouble_of_int[OF b] by simp
  ultimately show ?thesis
    by (simp add: textOf_def jsAdd_def jsMul_def timeToSeconds_def)
qed

lemma jsAdd_NaN: "jsAdd NaN b = NaN" "jsAdd a NaN = NaN"
  by (simp_all add: jsAdd_def split: jsnum.splits)

lemma jsSub_NaN: "jsSub NaN b = NaN" "jsSub a NaN = NaN"
  by (simp_all add: jsSub_def split: jsnum.splits)

lemma foldl_NaN:
  "foldl (\<lambda>sum seg. jsAdd sum (d seg)) NaN segs = NaN"
  by (induction segs) (simp_all add: jsAdd_NaN)

lemma calculateDurationText_NaN:
  assumes "seg \<in> set segs"
    and "timeToSecondsText (rawEnd seg) = NaN \<or> timeToSecondsText (rawStart seg) = NaN"
  shows "calculateDurationText segs = NaN" and "\<not> exceedsBudget segs"
proof -
  from assms(1) obtain xs ys where s: "segs = xs @ seg # ys" by (meson split_list)
  have "jsSub (timeToSecondsText (rawEnd seg)) (timeToSecondsText (rawStart seg)) = NaN"
    using assms(2) by (auto simp: jsSub_NaN)
  then show "calculateDurationText segs = NaN"
    by (simp add: calculateDurationText_def s jsAdd_NaN foldl_NaN)
  then show "\<not> exceedsBudget segs" by (simp add: exceedsBudget_def jsGreater_def)
qed

text \<open>
  C1. The bound does not hold for every input. For the candidates 0:00-4:00 and
  5:00-\<^verbatim>\<open>5:1O\<close> and no annotated event, \<^verbatim>\<open>timeToSeconds\<close> of the second end text
  is \<^verbatim>\<open>NaN\<close>, the total duration is \<^verbatim>\<open>NaN\<close>, and the test \<^verbatim>\<open>> 120\<close> that
  guards both the first and the final trim is false, while the first candidate alone
  lasts 240 seconds and alone would be trimmed. Both trims are skipped, every coverage
  pass returns its input for its empty event list, and the fallback does nothing
  without scenery: the final cut is the two candidates as they came.
\<close>

theorem unparsed_end_skips_both_trims:
  "timeToSecondsText (rawEnd (garbledCandidates ! 1)) = NaN
   \<and> calculateDurationText garbledCandidates = NaN
   \<and> \<not> exceedsBudget garbledCandidates
   \<and> jsSub (timeToSecondsText (rawEnd (garbledCandidates ! 0)))
            (timeToSecondsText (rawStart (garbledCandidates ! 0))) = Num 240
   \<and> exceedsBudget [garbledCandidates ! 0]"
  by code_simp

section \<open>The mood normaliser on discarded input\<close>

lemma safeDurationOf_pos: "1 \<le> safeDurationOf videoDuration"
  by (simp add: safeDurationOf_def)

lemma mathRound_of_int: "mathRound (of_int n) = n"
  by (simp add: mathRound_def) linarith

lemma mathRound_0: "mathRound 0 = 0"
  using mathRound_of_int[of 0] by simp

lemma mathRound_numeral: "mathRound (numeral n) = numeral n"
  using mathRound_of_int[of "numeral n"] by simp

lemma safeDurationOf_whole: "1 \<le> d \<Longrightarrow> safeDurationOf (of_int d) = d"
  by (simp add: safeDurationOf_def mathRound_of_int)

lemma targetCountOf_range: "20 \<le> targetCountOf s \<and> targetCountOf s \<le> 30"
  by (simp add: targetCountOf_def clamp_def)

lemma length_normalizeMoodData:
  "length (normalizeMoodData moodData videoDuration)
     = nat (targetCountOf (safeDurationOf videoDuration))"
  by (simp add: normalizeMoodData_def Let_def)

lemma cleanItem_discarded:
  "name it = Malformed \<or> val it = Malformed \<Longrightarrow> cleanItem s it = []"
  by (auto simp: cleanItem_def split: field.splits)

lemma controlPoints_discarded:
  assumes "allDiscarded moodData"
  shows "controlPoints moodData videoDuration =
           [\<lparr>sec = 0, pvalue = 50\<rparr>, \<lparr>sec = safeDurationOf videoDuration, pvalue = 50\<rparr>]"
proof -
  have "cleaned (case moodData of None \<Rightarrow> [] | Some md \<Rightarrow> md) s = []" for s
  proof (cases moodData)
    case None
    then show ?thesis by (simp add: cleaned_def)
  next
    case (Some md)
    with assms have "list_all (\<lambda>it. name it = Malformed \<or> val it = Malformed) md"
      by (simp add: allDiscarded_def)
    then have c: "concat (map (cleanItem s) md) = []"
      by (induction md) (simp_all add: cleanItem_discarded)
    show ?thesis unfolding cleaned_def Some option.case c by simp
  qed
  then show ?thesis
    by (simp add: controlPoints_def Let_def deduped_def forceBoundaries_def)
qed

lemma interpolate_flat:
  "0 < s \<Longrightarrow> interpolateMoodValue [\<lparr>sec = 0, pvalue = 50\<rparr>, \<lparr>sec = s, pvalue = 50\<rparr>] t = 50"
  using toDouble_of_int[of 50] by (simp add: interpolateMoodValue_def Let_def toDouble_0)

lemma sampleAt_flat:
  "0 < s \<Longrightarrow> svalue (sampleAt [\<lparr>sec = 0, pvalue = 50\<rparr>, \<lparr>sec = s, pvalue = 50\<rparr>] s tc i) = 50"
  by (simp add: sampleAt_def Let_def interpolate_flat mathRound_numeral clamp_def)

lemma hd_samples:
  assumes "20 \<le> tc"
  shows "hd (map (sampleAt pts s tc) [0..tc - 1]) = sampleAt pts s tc 0"
proof -
  have "[0..tc - 1] = 0 # [0 + 1..tc - 1]" using assms by (intro upto_rec1) simp
  then show ?thesis by simp
qed

lemma last_samples:
  assumes "20 \<le> tc"
  shows "last (map (sampleAt pts s tc) [0..tc - 1]) = sampleAt pts s tc (tc - 1)"
proof -
  have "[0..tc - 1] = [0..tc - 1 - 1] @ [tc - 1]" using assms by (intro upto_rec2) simp
  then show ?thesis by simp
qed

lemma gridSec_first: "20 \<le> tc \<Longrightarrow> gridSec s tc 0 = 0"
  by (simp add: gridSec_def mathRound_0)

lemma gridSec_last: "gridSec s tc (tc - 1) = s"
  by (simp add: gridSec_def)

lemma secondsToTime_0: "secondsToTime 0 = MSS 0 0"
  by (simp add: secondsToTime_def jsRem_def)

text \<open>
  C10 (as amended). Let D be the source duration rounded to whole seconds, at least 1.
  If the mood input is missing or empty, or every entry of it is discarded, the
  normaliser returns clamp(round(D/12), 20, 30) samples, the first at 0:00 and the last
  at D seconds, every one with the value 50.
\<close>

theorem flat_mood_curve:
  assumes "allDiscarded moodData"
  shows "safeDurationOf videoDuration = max 1 (mathRound videoDuration)
       \<and> length (normalizeMoodData moodData videoDuration)
           = nat (clamp (mathRound (of_int (safeDurationOf videoDuration) / 12)) 20 30)
       \<and> list_all (\<lambda>s. svalue s = 50) (normalizeMoodData moodData videoDuration)
       \<and> sname (hd (normalizeMoodData moodData videoDuration)) = MSS 0 0
       \<and> timeToSeconds (sname (last (normalizeMoodData moodData videoDuration)))
           = safeDurationOf videoDuration"
proof -
  let ?s = "safeDurationOf videoDuration"
  let ?tc = "targetCountOf ?s"
  have pos: "0 < ?s" using safeDurationOf_pos[of videoDuration] by simp
  have tc: "20 \<le> ?tc" using targetCountOf_range[of ?s] by simp
  have n: "normalizeMoodData moodData videoDuration =
             map (sampleAt [\<lparr>sec = 0, pvalue = 50\<rparr>, \<lparr>sec = ?s, pvalue = 50\<rparr>] ?s ?tc) [0..?tc - 1]"
    by (simp add: normalizeMoodData_def Let_def controlPoints_discarded[OF assms])
  have 1: "length (normalizeMoodData moodData videoDuration)
           = nat (clamp (mathRound (of_int ?s / 12)) 20 30)"
    by (simp add: length_normalizeMoodData targetCountOf_def)
  have 2: "list_all (\<lambda>s. svalue s = 50) (normalizeMoodData moodData videoDuration)"
    unfolding n using pos by (simp add: list_all_iff sampleAt_flat)
  have 3: "sname (hd (normalizeMoodData moodData videoDuration)) = MSS 0 0"
    unfolding n hd_samples[OF tc]
    by (simp add: sampleAt_def Let_def gridSec_first[OF tc] secondsToTime_0)
  have 4: "timeToSeconds (sname (last (normalizeMoodData moodData videoDuration))) = ?s"
    unfolding n last_samples[OF tc] using pos
    by (simp add: sampleAt_def Let_def gridSec_last tts_stt_of_int)
  have 0: "?s = max 1 (mathRound videoDuration)" by (simp add: safeDurationOf_def)
  from 0 1 2 3 4 show ?thesis by blast
qed

theorem flat_mood_curve_witness:
  "allDiscarded (Some garbledMoods)
   \<and> length (normalizeMoodData (Some garbledMoods) 60) = 20
   \<and> list_all (\<lambda>s. svalue s = 50) (normalizeMoodData (Some garbledMoods) 60)
   \<and> timeToSeconds (sname (last (normalizeMoodData (Some garbledMoods) 60))) = 60"
proof -
  have h: "allDiscarded (Some garbledMoods)" by code_simp
  have n: "nat (clamp (mathRound (of_int (safeDurationOf 60) / 12)) 20 30) = 20" by code_simp
  have s: "safeDurationOf 60 = 60" by code_simp
  from flat_mood_curve[OF h, of 60] h n s show ?thesis by simp
qed

text \<open>
  The claim as stated takes the count from the source duration itself. For a source
  of 245.6 seconds and no mood input the normaliser returns 21 samples, the last at
  4:06, while clamp(round(245.6/12), 20, 30) is 20.
\<close>

theorem flat_mood_count_counterexample:
  "length (normalizeMoodData None (1228 / 5)) = 21
   \<and> clamp (mathRound ((1228 / 5) / 12)) 20 30 = 20
   \<and> sname (last (normalizeMoodData None (1228 / 5))) = MSS 4 6"
  by code_simp

section \<open>The mood normaliser: cleaning, boundaries and resampling\<close>

lemma cleanItem_given:
  "cleanItem s \<lparr>name = Given t, val = Given v\<rparr>
     = [\<lparr>sec = clamp (timeToSeconds t) 0 s, pvalue = clamp (mathRound v) 0 100\<rparr>]"
  by (simp add: cleanItem_def mathRound_of_int)

lemma clamp_range: "lo \<le> hi \<Longrightarrow> lo \<le> clamp v lo hi \<and> clamp v lo hi \<le> hi"
  by (simp add: clamp_def)

lemma cleanItem_range:
  "0 \<le> s \<Longrightarrow> p \<in> set (cleanItem s it) \<Longrightarrow> 0 \<le> sec p \<and> sec p \<le> s \<and> 0 \<le> pvalue p \<and> pvalue p \<le> 100"
  by (auto simp: cleanItem_def clamp_def split: field.splits)

lemma cleaned_range:
  "0 \<le> s \<Longrightarrow> p \<in> set (cleaned md s) \<Longrightarrow> 0 \<le> sec p \<and> sec p \<le> s"
  using cleanItem_range by (fastforce simp: cleaned_def)

lemma cleaned_sorted: "sorted (map sec (cleaned md s))"
  by (simp add: cleaned_def)

lemma dedupe_fold_map_of:
  "map_of (foldl (\<lambda>m p. AList.update (sec p) (pvalue p) m) m0 cl)
     = map_of (rev (map pairOf cl) @ m0)"
proof (induction cl arbitrary: m0)
  case Nil
  then show ?case by simp
next
  case (Cons p ps)
  show ?case
    by (simp add: Cons.IH update_conv' pairOf_def map_add_upd_left)
qed

lemma dedupe_fold_distinct:
  "distinct (map fst m0) \<Longrightarrow>
   distinct (map fst (foldl (\<lambda>m p. AList.update (sec p) (pvalue p) m) m0 cl))"
  by (induction cl arbitrary: m0) (simp_all add: distinct_update)

lemma deduped_alt:
  "deduped cl = sort_key sec (map pointOf (foldl (\<lambda>m p. AList.update (sec p) (pvalue p) m) [] cl))"
proof -
  have "(\<lambda>(s, v). \<lparr>sec = s, pvalue = v\<rparr>) = pointOf"
    by (rule ext) (simp add: pointOf_def split: prod.splits)
  then show ?thesis by (simp add: deduped_def)
qed

lemma sec_pointOf: "sec \<circ> pointOf = fst"
  by (rule ext) (simp add: pointOf_def)

lemma mset_map_sort_key: "mset (map f (sort_key k ys)) = mset (map f ys)"
  by simp

lemma point_eta: "\<lparr>sec = sec p, pvalue = pvalue p\<rparr> = p" for p :: point
  by (cases p) simp

lemma point_sec_same: "sec p = v \<Longrightarrow> p\<lparr>sec := v\<rparr> = p" for p :: point
  by (cases p) auto

lemma deduped_sorted: "sorted (map sec (deduped cl))"
  by (simp add: deduped_alt)

lemma deduped_distinct: "distinct (map sec (deduped cl))"
proof -
  let ?al = "foldl (\<lambda>m p. AList.update (sec p) (pvalue p) m) [] cl"
  have "distinct (map fst ?al)" by (rule dedupe_fold_distinct) simp
  then have d: "distinct (map sec (map pointOf ?al))" by (simp add: sec_pointOf)
  have "mset (map sec (sort_key sec (map pointOf ?al))) = mset (map sec (map pointOf ?al))"
    by (rule mset_map_sort_key)
  from mset_eq_imp_distinct_iff[OF this] d show ?thesis by (simp only: deduped_alt)
qed

lemma deduped_strict: "sorted_wrt (<) (map sec (deduped cl))"
  by (simp only: strict_sorted_iff deduped_sorted deduped_distinct)

lemma deduped_member:
  "(\<lparr>sec = s, pvalue = v\<rparr> \<in> set (deduped cl)) = (map_of (rev (map pairOf cl)) s = Some v)"
proof -
  let ?al = "foldl (\<lambda>m p. AList.update (sec p) (pvalue p) m) [] cl"
  have d: "distinct (map fst ?al)" by (rule dedupe_fold_distinct) simp
  have "(\<lparr>sec = s, pvalue = v\<rparr> \<in> set (deduped cl)) = (\<lparr>sec = s, pvalue = v\<rparr> \<in> pointOf ` set ?al)"
    by (simp add: deduped_alt)
  also have "\<dots> = ((s, v) \<in> set ?al)"
    by (force simp: pointOf_def image_iff)
  also have "\<dots> = (map_of ?al s = Some v)"
    using d by simp
  also have "\<dots> = (map_of (rev (map pairOf cl)) s = Some v)"
    by (simp add: dedupe_fold_map_of)
  finally show ?thesis .
qed

lemma deduped_keeps_later:
  assumes "cl = xs @ p # ys" and "sec p \<notin> sec ` set ys"
  shows "p \<in> set (deduped cl) \<and> (\<forall>q\<in>set (deduped cl). sec q = sec p \<longrightarrow> q = p)"
proof -
  have "map_of (rev (map pairOf ys)) (sec p) = None"
    using assms(2) by (auto simp: map_of_eq_None_iff pairOf_def image_iff)
  then have m: "map_of (rev (map pairOf cl)) (sec p) = Some (pvalue p)"
    by (simp add: assms(1) map_of_append map_add_def pairOf_def)
  have "\<lparr>sec = sec p, pvalue = pvalue p\<rparr> \<in> set (deduped cl)"
    using m by (simp only: deduped_member)
  then have 1: "p \<in> set (deduped cl)" by (simp only: point_eta)
  have 2: "q = p" if "q \<in> set (deduped cl)" "sec q = sec p" for q
  proof -
    have "\<lparr>sec = sec q, pvalue = pvalue q\<rparr> \<in> set (deduped cl)"
      using that(1) by (simp only: point_eta)
    then have "map_of (rev (map pairOf cl)) (sec q) = Some (pvalue q)"
      by (simp only: deduped_member)
    with m that(2) have "pvalue q = pvalue p" by simp
    with that(2) show ?thesis by (cases p, cases q) simp
  qed
  from 1 2 show ?thesis by blast
qed

lemma deduped_range:
  "0 \<le> s \<Longrightarrow> p \<in> set (deduped (cleaned md s)) \<Longrightarrow> 0 \<le> sec p \<and> sec p \<le> s"
proof -
  assume s: "0 \<le> s" and p: "p \<in> set (deduped (cleaned md s))"
  have "\<lparr>sec = sec p, pvalue = pvalue p\<rparr> \<in> set (deduped (cleaned md s))"
    using p by (simp only: point_eta)
  then have "map_of (rev (map pairOf (cleaned md s))) (sec p) = Some (pvalue p)"
    by (simp only: deduped_member)
  then have "(sec p, pvalue p) \<in> set (rev (map pairOf (cleaned md s)))"
    by (rule map_of_SomeD)
  then obtain q where "q \<in> set (cleaned md s)" "sec q = sec p"
    by (auto simp: pairOf_def)
  with cleaned_range[OF s, of q md] show ?thesis by simp
qed

lemma forceBoundaries_shape:
  assumes ne: "points \<noteq> []"
    and rng: "\<forall>p\<in>set points. 0 \<le> sec p \<and> sec p \<le> s"
  shows "forceBoundaries points s =
           (if sec (hd points) > 0 then [\<lparr>sec = 0, pvalue = pvalue (hd points)\<rparr>] else [])
           @ points
           @ (if sec (last points) < s then [\<lparr>sec = s, pvalue = pvalue (last points)\<rparr>] else [])"
proof -
  obtain p0 rest where pts: "points = p0 # rest" using ne by (cases points) auto
  have l: "last points \<in> set points" using ne by simp
  have bl: "butlast points @ [last points] = points" using ne by simp
  have p00: "\<not> sec p0 > 0 \<Longrightarrow> p0\<lparr>sec := 0\<rparr> = p0"
    using rng pts by (intro point_sec_same) force
  have lss: "\<not> sec (last points) < s \<Longrightarrow> (last points)\<lparr>sec := s\<rparr> = last points"
    using rng l by (intro point_sec_same) force
  show ?thesis
  proof (cases "sec p0 > 0")
    case True
    have l1: "last (\<lparr>sec = 0, pvalue = pvalue p0\<rparr> # points) = last points" using ne by simp
    have b1: "butlast (\<lparr>sec = 0, pvalue = pvalue p0\<rparr> # points) = \<lparr>sec = 0, pvalue = pvalue p0\<rparr> # butlast points"
      using ne by simp
    show ?thesis
    proof (cases "sec (last points) < s")
      case lt: True
      with True l1 show ?thesis by (simp add: forceBoundaries_def pts Let_def)
    next
      case ge: False
      have "forceBoundaries points s = butlast (\<lparr>sec = 0, pvalue = pvalue p0\<rparr> # points) @ [(last points)\<lparr>sec := s\<rparr>]"
        using True ge l1 by (simp add: forceBoundaries_def pts Let_def)
      also have "\<dots> = \<lparr>sec = 0, pvalue = pvalue p0\<rparr> # points"
        unfolding b1 lss[OF ge] using bl by simp
      finally show ?thesis using True ge by (simp add: pts)
    qed
  next
    case False
    have p1: "p0\<lparr>sec := 0\<rparr> # rest = points" using p00[OF False] pts by simp
    show ?thesis
    proof (cases "sec (last points) < s")
      case lt: True
      with False p1 show ?thesis by (simp add: forceBoundaries_def pts Let_def)
    next
      case ge: False
      have "forceBoundaries points s = butlast points @ [(last points)\<lparr>sec := s\<rparr>]"
        using False ge p1 by (simp add: forceBoundaries_def pts Let_def)
      also have "\<dots> = points" unfolding lss[OF ge] using bl by simp
      finally show ?thesis using False ge by (simp add: pts)
    qed
  qed
qed

lemma linearAt_left: "inRange l \<Longrightarrow> linearAt l r (sec l) = of_int (pvalue l)"
  using toDouble_small(1)[of "pvalue l"] by (simp add: linearAt_def toDouble_0 inRange_def)

lemma linearAt_right:
  assumes "sec l < sec r" and "inRange l" and "inRange r"
  shows "linearAt l r (sec r) = of_int (pvalue r)"
proof -
  have "of_int (sec r - sec l) / of_int (sec r - sec l) = (1::rat)" using assms(1) by simp
  moreover have "toDouble (of_int (pvalue r - pvalue l)) = of_int (pvalue r - pvalue l)"
    using assms(2,3) by (intro toDouble_small(2)) (simp_all add: inRange_def)
  moreover have "toDouble (of_int (pvalue r)) = of_int (pvalue r)"
    using assms(3) by (intro toDouble_small(1)) (simp_all add: inRange_def)
  ultimately show ?thesis by (simp add: linearAt_def toDouble_1)
qed

lemma interpLoop_between:
  "sorted_wrt (<) (map sec (left # xs @ r # ys)) \<Longrightarrow>
   list_all inRange (left # xs @ r # ys) \<Longrightarrow>
   sec (last (left # xs)) \<le> t \<Longrightarrow> t \<le> sec r \<Longrightarrow>
   interpLoop left (xs @ r # ys) t = linearAt (last (left # xs)) r t"
proof (induction xs arbitrary: left)
  case Nil
  then show ?case by (simp add: linearAt_def Let_def)
next
  case (Cons x xs')
  have lx: "sec left < sec x" using Cons.prems(1) by simp
  have srt: "sorted_wrt (<) (map sec (x # xs' @ r # ys))" using Cons.prems(1) by simp
  have rng: "list_all inRange (x # xs' @ r # ys)" using Cons.prems(2) by simp
  have rl: "inRange left" and rx: "inRange x" using Cons.prems(2) by simp_all
  show ?case
  proof (cases "t \<le> sec x")
    case True
    have xs': "xs' = []"
    proof (rule ccontr)
      assume "xs' \<noteq> []"
      then have "last xs' \<in> set xs'" by simp
      then have "sec x < sec (last xs')" using srt by auto
      moreover have "sec (last xs') \<le> t" using Cons.prems(3) \<open>xs' \<noteq> []\<close> by simp
      ultimately show False using True by linarith
    qed
    have "sec x \<le> t" using Cons.prems(3) xs' by simp
    with True have t: "t = sec x" by simp
    have xr: "sec x < sec r" using srt xs' by simp
    have "interpLoop left ((x # xs') @ r # ys) t = linearAt left x t"
      using True lx by (simp add: linearAt_def Let_def)
    also have "\<dots> = of_int (pvalue x)" unfolding t using lx rl rx by (rule linearAt_right)
    also have "\<dots> = linearAt x r t" unfolding t using rx by (rule linearAt_left[symmetric])
    finally show ?thesis using xs' by simp
  next
    case False
    then have "interpLoop left ((x # xs') @ r # ys) t = interpLoop x (xs' @ r # ys) t"
      by simp
    also have "\<dots> = linearAt (last (x # xs')) r t"
      using Cons.prems(3,4) by (intro Cons.IH[OF srt rng]) simp_all
    finally show ?thesis by simp
  qed
qed

lemma interpolate_between:
  assumes srt: "sorted_wrt (<) (map sec (xs @ l # r # ys))"
    and rng: "list_all inRange (xs @ l # r # ys)"
    and lo: "sec l \<le> t" and hi: "t \<le> sec r"
  shows "interpolateMoodValue (xs @ l # r # ys) t = linearAt l r t"
proof (cases xs)
  case Nil
  have rl: "inRange l" using rng by (simp add: Nil)
  show ?thesis
  proof (cases "t \<le> sec l")
    case True
    with lo have t: "t = sec l" by simp
    show ?thesis unfolding t by (simp add: Nil interpolateMoodValue_def linearAt_left[OF rl])
  next
    case False
    have "interpLoop l ([] @ r # ys) t = linearAt (last (l # [])) r t"
      using srt rng lo hi by (intro interpLoop_between) (simp_all add: Nil)
    with False show ?thesis by (simp add: Nil interpolateMoodValue_def)
  qed
next
  case (Cons x xs')
  have "sec x < sec l" using srt by (simp add: Cons)
  with lo have nt: "\<not> t \<le> sec x" by linarith
  have "interpLoop x ((xs' @ [l]) @ r # ys) t = linearAt (last (x # xs' @ [l])) r t"
    using srt rng lo hi by (intro interpLoop_between) (simp_all add: Cons)
  then have "interpLoop x (xs' @ l # r # ys) t = linearAt l r t" by simp
  moreover have "interpolateMoodValue (x # xs' @ l # r # ys) t = interpLoop x (xs' @ l # r # ys) t"
    using nt by (cases xs') (simp_all add: interpolateMoodValue_def)
  ultimately show ?thesis by (simp add: Cons)
qed

lemma linearAt_error:
  assumes l: "inRange l" and r: "inRange r"
    and lt: "sec l < sec r" and lo: "sec l \<le> t" and hi: "t \<le> sec r"
  shows "\<bar>linearAt l r t - linearExact l r t\<bar> \<le> 1 / 2 ^ 43"
proof -
  define u :: rat where "u = 1 / 2 ^ 53"
  define q :: rat where "q = of_int (t - sec l) / of_int (sec r - sec l)"
  define d :: rat where "d = of_int (pvalue r - pvalue l)"
  define v :: rat where "v = of_int (pvalue l)"
  define rho where "rho = toDouble q"
  define prod where "prod = toDouble (d * rho)"
  have u: "0 < u" "u \<le> 1" by (simp_all add: u_def)
  have err: "\<bar>toDouble x - x\<bar> \<le> \<bar>x\<bar> * u" for x
    using toDouble_error[of x] by (simp add: u_def)
  have q: "0 \<le> q" "q \<le> 1" using lt lo hi by (simp_all add: q_def)
  have d: "\<bar>d\<bar> \<le> 100" using l r by (simp add: d_def inRange_def abs_le_iff)
  have v: "\<bar>v\<bar> \<le> 100" using l by (simp add: v_def inRange_def abs_le_iff)
  have "\<bar>rho - q\<bar> \<le> \<bar>q\<bar> * u" unfolding rho_def by (rule err)
  also have "\<dots> \<le> 1 * u" using q u by (intro mult_right_mono) simp_all
  finally have rq: "\<bar>rho - q\<bar> \<le> u" by simp
  then have rho: "\<bar>rho\<bar> \<le> 2" using q u by (simp add: abs_le_iff)
  have dq: "\<bar>d * q\<bar> \<le> 100"
  proof -
    have "\<bar>d * q\<bar> = \<bar>d\<bar> * \<bar>q\<bar>" by (rule abs_mult)
    also have "\<dots> \<le> 100 * 1" using d q by (intro mult_mono) simp_all
    finally show ?thesis by simp
  qed
  have "\<bar>d * rho - d * q\<bar> = \<bar>d\<bar> * \<bar>rho - q\<bar>"
    by (simp add: abs_mult[symmetric] right_diff_distrib)
  also have "\<dots> \<le> 100 * u" using d rq by (intro mult_mono) simp_all
  finally have e1: "\<bar>d * rho - d * q\<bar> \<le> 100 * u" .
  have drho: "\<bar>d * rho\<bar> \<le> 200"
  proof -
    have "\<bar>d * rho\<bar> = \<bar>d\<bar> * \<bar>rho\<bar>" by (rule abs_mult)
    also have "\<dots> \<le> 100 * 2" using d rho by (intro mult_mono) simp_all
    finally show ?thesis by simp
  qed
  have "\<bar>prod - d * rho\<bar> \<le> \<bar>d * rho\<bar> * u" unfolding prod_def by (rule err)
  also have "\<dots> \<le> 200 * u" using drho u by (intro mult_right_mono) simp_all
  finally have e2: "\<bar>prod - d * rho\<bar> \<le> 200 * u" .
  from e1 e2 have e3: "\<bar>prod - d * q\<bar> \<le> 300 * u" by (simp add: abs_le_iff)
  have "\<bar>v + prod\<bar> \<le> 100 + 100 + 300 * u" using v dq e3 by (simp add: abs_le_iff)
  then have vp: "\<bar>v + prod\<bar> \<le> 500" using u by simp
  have "\<bar>toDouble (v + prod) - (v + prod)\<bar> \<le> \<bar>v + prod\<bar> * u" by (rule err)
  also have "\<dots> \<le> 500 * u" using vp u by (intro mult_right_mono) simp_all
  finally have e4: "\<bar>toDouble (v + prod) - (v + prod)\<bar> \<le> 500 * u" .
  from e3 e4 have "\<bar>toDouble (v + prod) - (v + d * q)\<bar> \<le> 800 * u" by (simp add: abs_le_iff)
  also have "\<dots> \<le> 1 / 2 ^ 43" by (simp add: u_def)
  finally show ?thesis
    by (simp add: linearAt_def linearExact_def prod_def rho_def v_def d_def q_def)
qed

lemma mathRound_mono: "x \<le> y \<Longrightarrow> mathRound x \<le> mathRound y"
  by (simp add: mathRound_def floor_mono)

lemma gridSec_range:
  assumes s: "0 \<le> s" and tc: "20 \<le> tc" and i: "0 \<le> i" "i < tc"
  shows "0 \<le> gridSec s tc i \<and> gridSec s tc i \<le> s"
proof (cases "i = tc - 1")
  case True
  with s show ?thesis by (simp add: gridSec_def)
next
  case False
  let ?x = "rat_of_int (i * s) / rat_of_int (tc - 1)"
  have d: "(0::rat) < of_int (tc - 1)" using tc by simp
  have "i \<le> tc - 1" using i by simp
  then have "i * s \<le> (tc - 1) * s" using s by (rule mult_right_mono)
  then have "rat_of_int (i * s) \<le> rat_of_int ((tc - 1) * s)" by (simp only: of_int_le_iff)
  then have "?x \<le> rat_of_int ((tc - 1) * s) / rat_of_int (tc - 1)"
    using d by (simp only: divide_right_mono less_imp_le)
  also have "\<dots> = of_int s" using d by simp
  finally have up: "?x \<le> of_int s" .
  have "0 \<le> i * s" using i s by simp
  then have "(0::rat) \<le> rat_of_int (i * s)" by (simp only: of_int_0_le_iff)
  then have "0 \<le> ?x" using d by (intro divide_nonneg_nonneg) (simp_all only: less_imp_le)
  then have lo: "of_int 0 \<le> ?x" by simp
  from mathRound_mono[OF lo] mathRound_mono[OF up] False
  show ?thesis by (simp add: gridSec_def mathRound_of_int mathRound_0)
qed

lemma controlPoints_eq:
  "controlPoints (Some md) videoDuration =
     forceBoundaries (deduped (cleaned md (safeDurationOf videoDuration))) (safeDurationOf videoDuration)"
  by (simp add: controlPoints_def Let_def)

lemma controlPoints_shape:
  assumes "deduped (cleaned md (safeDurationOf videoDuration)) \<noteq> []"
  shows "controlPoints (Some md) videoDuration =
      (if sec (hd (deduped (cleaned md (safeDurationOf videoDuration)))) > 0
       then [\<lparr>sec = 0, pvalue = pvalue (hd (deduped (cleaned md (safeDurationOf videoDuration))))\<rparr>]
       else [])
      @ deduped (cleaned md (safeDurationOf videoDuration))
      @ (if sec (last (deduped (cleaned md (safeDurationOf videoDuration)))) < safeDurationOf videoDuration
         then [\<lparr>sec = safeDurationOf videoDuration,
                pvalue = pvalue (last (deduped (cleaned md (safeDurationOf videoDuration))))\<rparr>]
         else [])"
proof -
  have s: "0 \<le> safeDurationOf videoDuration" using safeDurationOf_pos[of videoDuration] by simp
  show ?thesis
    unfolding controlPoints_eq
    using assms deduped_range[OF s] by (intro forceBoundaries_shape) blast+
qed

lemma controlPoints_strict:
  "sorted_wrt (<) (map sec (controlPoints (Some md) videoDuration))"
proof (cases "deduped (cleaned md (safeDurationOf videoDuration)) = []")
  case True
  then show ?thesis
    using safeDurationOf_pos[of videoDuration]
    by (simp add: controlPoints_eq forceBoundaries_def)
next
  case False
  let ?s = "safeDurationOf videoDuration"
  let ?d = "deduped (cleaned md ?s)"
  have s: "0 \<le> ?s" using safeDurationOf_pos[of videoDuration] by simp
  have st: "sorted_wrt (<) (map sec ?d)" by (rule deduped_strict)
  have hdmin: "\<forall>p\<in>set ?d. sec (hd ?d) \<le> sec p"
    using st False by (cases ?d) (auto simp: less_imp_le)
  have lastmax: "\<forall>p\<in>set ?d. sec p \<le> sec (last ?d)"
  proof
    fix p assume "p \<in> set ?d"
    have "sorted (map sec ?d)" by (rule deduped_sorted)
    then have "sorted (map sec (butlast ?d @ [last ?d]))" using False by simp
    then have "\<forall>q\<in>set (butlast ?d). sec q \<le> sec (last ?d)"
      by (simp add: sorted_append)
    moreover have "p \<in> set (butlast ?d) \<or> p = last ?d"
      using \<open>p \<in> set ?d\<close> False by (metis append_butlast_last_id in_set_conv_decomp_first insert_iff list.set(2) rotate1.simps(2) set_rotate1)
    ultimately show "sec p \<le> sec (last ?d)" by auto
  qed
  show ?thesis
    unfolding controlPoints_shape[OF False]
    using st hdmin lastmax deduped_range[OF s, of _ md] safeDurationOf_pos[of videoDuration]
    by (auto simp: sorted_wrt_append)
qed

lemma controlPoints_ends:
  "sec (hd (controlPoints (Some md) videoDuration)) = 0 \<and>
   sec (last (controlPoints (Some md) videoDuration)) = safeDurationOf videoDuration"
proof (cases "deduped (cleaned md (safeDurationOf videoDuration)) = []")
  case True
  then show ?thesis by (simp add: controlPoints_eq forceBoundaries_def)
next
  case False
  let ?s = "safeDurationOf videoDuration"
  let ?d = "deduped (cleaned md ?s)"
  have s: "0 \<le> ?s" using safeDurationOf_pos[of videoDuration] by simp
  have h: "hd ?d \<in> set ?d" and l: "last ?d \<in> set ?d" using False by simp_all
  from deduped_range[OF s h] deduped_range[OF s l] False
  show ?thesis
    unfolding controlPoints_shape[OF False] by auto
qed

lemma nth_samples:
  assumes "0 \<le> i" "i < tc"
  shows "map f [0..tc - 1] ! nat i = f i"
proof -
  have "0 + int (nat i) \<le> tc - 1" using assms by simp
  then have "[0..tc - 1] ! nat i = 0 + int (nat i)" by (rule nth_upto)
  moreover have "nat i < length [0..tc - 1]" using assms by simp
  ultimately show ?thesis using assms by simp
qed

lemma deduped_subset: "p \<in> set (deduped cl) \<Longrightarrow> p \<in> set cl"
proof -
  assume p: "p \<in> set (deduped cl)"
  have "\<lparr>sec = sec p, pvalue = pvalue p\<rparr> \<in> set (deduped cl)"
    using p by (simp only: point_eta)
  then have "map_of (rev (map pairOf cl)) (sec p) = Some (pvalue p)"
    by (simp only: deduped_member)
  then have "(sec p, pvalue p) \<in> set (rev (map pairOf cl))"
    by (rule map_of_SomeD)
  then obtain q where q: "q \<in> set cl" "sec q = sec p" "pvalue q = pvalue p"
    by (auto simp: pairOf_def)
  have "q = p" using q(2,3) by (cases p, cases q) simp
  with q(1) show ?thesis by simp
qed

lemma cleaned_set: "set (cleaned md s) = set (concat (map (cleanItem s) md))"
  by (simp add: cleaned_def)

lemma cleaned_inRange: "0 \<le> s \<Longrightarrow> p \<in> set (cleaned md s) \<Longrightarrow> inRange p"
  using cleanItem_range by (fastforce simp: cleaned_def inRange_def)

lemma controlPoints_inRange: "list_all inRange (controlPoints (Some md) videoDuration)"
proof -
  let ?D = "safeDurationOf videoDuration"
  let ?d = "deduped (cleaned md ?D)"
  have s: "0 \<le> ?D" using safeDurationOf_pos[of videoDuration] by simp
  have d: "inRange p" if "p \<in> set ?d" for p
    using that deduped_subset cleaned_inRange[OF s] by blast
  show ?thesis
  proof (cases "?d = []")
    case True
    then show ?thesis by (simp add: controlPoints_eq forceBoundaries_def inRange_def)
  next
    case False
    then have "hd ?d \<in> set ?d" "last ?d \<in> set ?d" by simp_all
    then have "inRange (hd ?d)" "inRange (last ?d)" using d by blast+
    then have "inRange \<lparr>sec = 0, pvalue = pvalue (hd ?d)\<rparr>"
      "inRange \<lparr>sec = ?D, pvalue = pvalue (last ?d)\<rparr>" by (simp_all add: inRange_def)
    then show ?thesis
      unfolding controlPoints_shape[OF False] using d by (auto simp: list_all_iff)
  qed
qed

lemma filter_snoc_split:
  assumes "filter P cl = F @ [p]"
  shows "\<exists>as bs. cl = as @ p # bs \<and> (\<forall>q\<in>set bs. \<not> P q)"
proof -
  have "filter P (rev cl) = p # rev F" using assms by (simp add: rev_filter[symmetric])
  then obtain us vs where "rev cl = us @ p # vs" "\<forall>u\<in>set us. \<not> P u"
    by (auto simp: filter_eq_Cons_iff)
  then have "cl = rev vs @ p # rev us \<and> (\<forall>q\<in>set (rev us). \<not> P q)"
    by (metis rev_append rev.simps(2) rev_rev_ident set_rev append.assoc append_Cons append_Nil)
  then show ?thesis by blast
qed

lemma cleaned_later:
  assumes "md = xs @ it # ys" and "cleanItem D it = [p]"
    and "\<forall>it'\<in>set ys. \<forall>q\<in>set (cleanItem D it'). sec q \<noteq> sec p"
  shows "\<exists>as bs. cleaned md D = as @ p # bs \<and> sec p \<notin> sec ` set bs"
proof -
  let ?P = "\<lambda>q. sec q = sec p"
  let ?L = "concat (map (cleanItem D) md)"
  have L: "?L = concat (map (cleanItem D) xs) @ [p] @ concat (map (cleanItem D) ys)"
    by (simp add: assms(1,2))
  have "filter ?P (concat (map (cleanItem D) ys)) = []"
    using assms(3) by (auto simp: filter_empty_conv)
  then have "filter ?P ?L = filter ?P (concat (map (cleanItem D) xs)) @ [p]"
    unfolding L by simp
  moreover have "filter ?P (cleaned md D) = filter ?P ?L"
    unfolding cleaned_def by (rule sort_key_stable)
  ultimately have "filter ?P (cleaned md D) = filter ?P (concat (map (cleanItem D) xs)) @ [p]"
    by simp
  from filter_snoc_split[OF this] obtain as bs
    where "cleaned md D = as @ p # bs" "\<forall>q\<in>set bs. sec q \<noteq> sec p" by blast
  then have "cleaned md D = as @ p # bs \<and> sec p \<notin> sec ` set bs" by force
  then show ?thesis by blast
qed

lemma cleanItem_sec:
  assumes "0 \<le> D" and "q \<in> set (cleanItem D it')"
  shows "sec q = (case name it' of Given t' \<Rightarrow> clamp (timeToSeconds t') 0 D | _ \<Rightarrow> 0)
       \<and> name it' \<noteq> Malformed"
proof -
  have z: "clamp (0::int) 0 D = 0" using assms(1) by (simp add: clamp_def)
  have t0: "timeToSeconds (MSS 0 0) = 0" by (simp add: timeToSeconds_def)
  show ?thesis
    using assms(2)
    by (cases "name it'"; cases "val it'")
       (simp_all add: cleanItem_def mathRound_of_int mathRound_0 t0 z)
qed

lemma sameSecond_cleanItem:
  assumes "0 \<le> D" and "\<not> sameSecond D t it'" and "q \<in> set (cleanItem D it')"
  shows "sec q \<noteq> clamp (timeToSeconds t) 0 D"
  using cleanItem_sec[OF assms(1,3)] assms(2)
  by (cases "name it'") (simp_all add: sameSecond_def)


text \<open>
  C9 (as amended). Let D be the source duration rounded to whole seconds, at least 1.
  A mood entry with a proper time and value gives the cleaned point at its time
  clamped into [0, D] with its value rounded and clamped into [0, 100], and the cleaned
  points are those of the entries and no others. If no later entry lands on the same
  second, that point is among the surviving points and among the control points, and
  every control point at its second carries its value. The control points are the
  surviving ones, with a point at 0 carrying the first surviving value put in front
  when none is at 0 and a point at D carrying the last surviving value appended when
  none is at D (two points of value 50 when nothing survives); their seconds increase
  strictly from 0 to D and their values lie within [0, 100]. The result has
  clamp(round(D/12), 20, 30) samples; sample i is at a grid second within [0, D] and
  carries the rounded, clamped value that the linear interpolation between the two
  neighbouring control points gives in double precision at that second, which is
  within \<open>2^-43\<close> of the exact point of the line. For the single mood point 80 at
  0:30 and 60 seconds the control points are 80 at 0, 30 and 60.
\<close>

theorem mood_normalizer:
  assumes entry: "md = xs @ it # ys" "name it = Given t" "val it = Given v"
      "list_all (\<lambda>it'. \<not> sameSecond (safeDurationOf videoDuration) t it') ys"
    and idx: "0 \<le> i" "i < targetCountOf (safeDurationOf videoDuration)"
    and between: "controlPoints (Some md) videoDuration = before @ l # r # after"
      "sec l \<le> gridSec (safeDurationOf videoDuration) (targetCountOf (safeDurationOf videoDuration)) i"
      "gridSec (safeDurationOf videoDuration) (targetCountOf (safeDurationOf videoDuration)) i \<le> sec r"
  shows "pt (clamp (timeToSeconds t) 0 (safeDurationOf videoDuration)) (clamp (mathRound v) 0 100)
           \<in> set (cleanedOf md videoDuration)
     \<and> set (cleanedOf md videoDuration)
         = set (concat (map (cleanItem (safeDurationOf videoDuration)) md))
     \<and> list_all (\<lambda>q. 0 \<le> sec q \<and> sec q \<le> safeDurationOf videoDuration) (cleanedOf md videoDuration)
     \<and> set (dedupedOf md videoDuration) \<subseteq> set (cleanedOf md videoDuration)
     \<and> sorted_wrt (<) (map sec (dedupedOf md videoDuration))
     \<and> pt (clamp (timeToSeconds t) 0 (safeDurationOf videoDuration)) (clamp (mathRound v) 0 100)
           \<in> set (dedupedOf md videoDuration)
     \<and> pt (clamp (timeToSeconds t) 0 (safeDurationOf videoDuration)) (clamp (mathRound v) 0 100)
           \<in> set (controlPoints (Some md) videoDuration)
     \<and> list_all (\<lambda>q. sec q \<noteq> clamp (timeToSeconds t) 0 (safeDurationOf videoDuration)
                      \<or> pvalue q = clamp (mathRound v) 0 100)
           (controlPoints (Some md) videoDuration)
     \<and> controlPoints (Some md) videoDuration =
         (if dedupedOf md videoDuration = []
          then [\<lparr>sec = 0, pvalue = 50\<rparr>, \<lparr>sec = safeDurationOf videoDuration, pvalue = 50\<rparr>]
          else (if sec (hd (dedupedOf md videoDuration)) > 0
                then [\<lparr>sec = 0, pvalue = pvalue (hd (dedupedOf md videoDuration))\<rparr>] else [])
               @ dedupedOf md videoDuration
               @ (if sec (last (dedupedOf md videoDuration)) < safeDurationOf videoDuration
                  then [\<lparr>sec = safeDurationOf videoDuration,
                         pvalue = pvalue (last (dedupedOf md videoDuration))\<rparr>] else []))
     \<and> sec (hd (controlPoints (Some md) videoDuration)) = 0
     \<and> sec (last (controlPoints (Some md) videoDuration)) = safeDurationOf videoDuration
     \<and> sorted_wrt (<) (map sec (controlPoints (Some md) videoDuration))
     \<and> list_all inRange (controlPoints (Some md) videoDuration)
     \<and> length (normalizeMoodData (Some md) videoDuration)
         = nat (clamp (mathRound (of_int (safeDurationOf videoDuration) / 12)) 20 30)
     \<and> 0 \<le> gridSec (safeDurationOf videoDuration) (targetCountOf (safeDurationOf videoDuration)) i
     \<and> gridSec (safeDurationOf videoDuration) (targetCountOf (safeDurationOf videoDuration)) i
         \<le> safeDurationOf videoDuration
     \<and> sname (normalizeMoodData (Some md) videoDuration ! nat i)
         = secondsToTime (of_int (gridSec (safeDurationOf videoDuration)
                                     (targetCountOf (safeDurationOf videoDuration)) i))
     \<and> svalue (normalizeMoodData (Some md) videoDuration ! nat i)
         = clamp (mathRound (linearAt l r (gridSec (safeDurationOf videoDuration)
                                     (targetCountOf (safeDurationOf videoDuration)) i))) 0 100
     \<and> \<bar>linearAt l r (gridSec (safeDurationOf videoDuration)
                          (targetCountOf (safeDurationOf videoDuration)) i)
         - linearExact l r (gridSec (safeDurationOf videoDuration)
                              (targetCountOf (safeDurationOf videoDuration)) i)\<bar> \<le> 1 / 2 ^ 43
     \<and> controlPoints (Some oneMood) 60 = [pt 0 80, pt 30 80, pt 60 80]
     \<and> safeDurationOf videoDuration = max 1 (mathRound videoDuration)"
proof -
  let ?D = "safeDurationOf videoDuration"
  let ?tc = "targetCountOf ?D"
  let ?g = "gridSec ?D ?tc i"
  let ?cp = "controlPoints (Some md) videoDuration"
  let ?p = "pt (clamp (timeToSeconds t) 0 ?D) (clamp (mathRound v) 0 100)"
  have D0: "0 \<le> ?D" using safeDurationOf_pos[of videoDuration] by simp
  have tc: "20 \<le> ?tc" using targetCountOf_range[of ?D] by simp
  have it: "it = \<lparr>name = Given t, val = Given v\<rparr>" using entry(2,3) by (cases it) simp
  have ci: "cleanItem ?D it = [?p]" unfolding it pt_def by (rule cleanItem_given)
  have sp: "sec ?p = clamp (timeToSeconds t) 0 ?D" by (simp add: pt_def)
  have lat: "\<forall>it'\<in>set ys. \<forall>q\<in>set (cleanItem ?D it'). sec q \<noteq> sec ?p"
    unfolding sp using entry(4) sameSecond_cleanItem[OF D0] by (auto simp: list_all_iff)
  from cleaned_later[OF entry(1) ci lat] obtain as bs
    where later: "cleanedOf md videoDuration = as @ ?p # bs" "sec ?p \<notin> sec ` set bs"
    unfolding cleanedOf_def by blast
  have k1: "?p \<in> set (cleanedOf md videoDuration)" unfolding later(1) by simp
  have k2: "set (cleanedOf md videoDuration) = set (concat (map (cleanItem ?D) md))"
    unfolding cleanedOf_def by (rule cleaned_set)
  have c2: "list_all (\<lambda>q. 0 \<le> sec q \<and> sec q \<le> ?D) (cleanedOf md videoDuration)"
    using cleaned_range[OF D0] by (simp add: cleanedOf_def list_all_iff)
  have k3: "set (dedupedOf md videoDuration) \<subseteq> set (cleanedOf md videoDuration)"
    unfolding dedupedOf_def using deduped_subset by blast
  have c3: "sorted_wrt (<) (map sec (dedupedOf md videoDuration))"
    unfolding dedupedOf_def by (rule deduped_strict)
  from deduped_keeps_later[OF later]
  have c4: "?p \<in> set (dedupedOf md videoDuration)"
    by (simp add: dedupedOf_def)
  have c6: "?cp =
         (if dedupedOf md videoDuration = []
          then [\<lparr>sec = 0, pvalue = 50\<rparr>, \<lparr>sec = ?D, pvalue = 50\<rparr>]
          else (if sec (hd (dedupedOf md videoDuration)) > 0
                then [\<lparr>sec = 0, pvalue = pvalue (hd (dedupedOf md videoDuration))\<rparr>] else [])
               @ dedupedOf md videoDuration
               @ (if sec (last (dedupedOf md videoDuration)) < ?D
                  then [\<lparr>sec = ?D, pvalue = pvalue (last (dedupedOf md videoDuration))\<rparr>] else []))"
  proof (cases "dedupedOf md videoDuration = []")
    case True
    then show ?thesis
      by (simp add: controlPoints_eq forceBoundaries_def dedupedOf_def cleanedOf_def)
  next
    case False
    then have "deduped (cleaned md ?D) \<noteq> []" by (simp add: dedupedOf_def cleanedOf_def)
    from controlPoints_shape[OF this] False show ?thesis
      by (simp only: dedupedOf_def cleanedOf_def if_False)
  qed
  have ne: "dedupedOf md videoDuration \<noteq> []" using c4 by auto
  have c5: "?p \<in> set ?cp" unfolding c6 using ne c4 by simp
  have c7: "sec (hd ?cp) = 0" and c8: "sec (last ?cp) = ?D"
    using controlPoints_ends[of md videoDuration] by simp_all
  have c9: "sorted_wrt (<) (map sec ?cp)" by (rule controlPoints_strict)
  have "distinct (map sec ?cp)" using c9 by (simp add: strict_sorted_iff)
  then have inj: "inj_on sec (set ?cp)" by (simp add: distinct_map)
  have c5': "list_all (\<lambda>q. sec q \<noteq> clamp (timeToSeconds t) 0 ?D
                      \<or> pvalue q = clamp (mathRound v) 0 100) ?cp"
    unfolding list_all_iff
  proof (intro ballI)
    fix q assume q: "q \<in> set ?cp"
    show "sec q \<noteq> clamp (timeToSeconds t) 0 ?D \<or> pvalue q = clamp (mathRound v) 0 100"
    proof (cases "sec q = clamp (timeToSeconds t) 0 ?D")
      case True
      then have "sec q = sec ?p" by (simp add: sp)
      with inj q c5 have "q = ?p" by (auto dest: inj_onD)
      then show ?thesis by (simp add: pt_def)
    qed simp
  qed
  have r: "list_all inRange ?cp" by (rule controlPoints_inRange)
  have c10: "length (normalizeMoodData (Some md) videoDuration)
         = nat (clamp (mathRound (of_int ?D / 12)) 20 30)"
    by (simp add: length_normalizeMoodData targetCountOf_def)
  have c11: "0 \<le> ?g" and c12: "?g \<le> ?D"
    using gridSec_range[OF D0 tc idx] by simp_all
  have nth: "normalizeMoodData (Some md) videoDuration ! nat i = sampleAt ?cp ?D ?tc i"
    unfolding normalizeMoodData_def Let_def by (rule nth_samples[OF idx])
  have c13: "sname (normalizeMoodData (Some md) videoDuration ! nat i) = secondsToTime (of_int ?g)"
    unfolding nth by (simp add: sampleAt_def Let_def)
  have "interpolateMoodValue (before @ l # r # after) ?g = linearAt l r ?g"
    using c9 r between(2,3) unfolding between(1) by (intro interpolate_between)
  then have c14: "svalue (normalizeMoodData (Some md) videoDuration ! nat i)
         = clamp (mathRound (linearAt l r ?g)) 0 100"
    unfolding nth by (simp add: sampleAt_def Let_def between(1))
  have "inRange l" "inRange r" "sec l < sec r"
    using r c9 unfolding between(1) by (simp_all add: sorted_wrt_append)
  then have c14': "\<bar>linearAt l r ?g - linearExact l r ?g\<bar> \<le> 1 / 2 ^ 43"
    using between(2,3) by (intro linearAt_error)
  have c15: "controlPoints (Some oneMood) 60 = [pt 0 80, pt 30 80, pt 60 80]" by code_simp
  have c16: "?D = max 1 (mathRound videoDuration)" by (simp add: safeDurationOf_def)
  from k1 k2 c2 k3 c3 c4 c5 c5' c6 c7 c8 c9 r c10 c11 c12 c13 c14 c14' c15 c16
  show ?thesis by (intro conjI) assumption+
qed


theorem mood_normalizer_witness:
  "steepMoods = [\<lparr>name = Given (MSS 0 16), val = Given 80\<rparr>, \<lparr>name = Given (MSS 0 6), val = Given 0\<rparr>]
       @ \<lparr>name = Given (MSS 0 16), val = Given 45\<rparr> # [\<lparr>name = Given (MSS 0 40), val = Missing\<rparr>]
   \<and> controlPoints (Some steepMoods) 60 = [pt 0 0] @ pt 6 0 # pt 16 45 # [pt 40 50, pt 60 50]
   \<and> gridSec (safeDurationOf 60) (targetCountOf (safeDurationOf 60)) 4 = 13
   \<and> pt 16 45 \<in> set (controlPoints (Some steepMoods) 60)
   \<and> length (normalizeMoodData (Some steepMoods) 60) = 20
   \<and> linearAt (pt 6 0) (pt 16 45) 13 = 8866461766385663 / 281474976710656
   \<and> linearExact (pt 6 0) (pt 16 45) 13 = 63 / 2
   \<and> mathRound (63 / 2) = 32
   \<and> svalue (normalizeMoodData (Some steepMoods) 60 ! nat 4) = 31"
proof -
  let ?it = "\<lparr>name = Given (MSS 0 16), val = Given 45\<rparr>"
  have h1: "steepMoods = [\<lparr>name = Given (MSS 0 16), val = Given 80\<rparr>, \<lparr>name = Given (MSS 0 6), val = Given 0\<rparr>]
       @ ?it # [\<lparr>name = Given (MSS 0 40), val = Missing\<rparr>]" by code_simp
  have h2: "name ?it = Given (MSS 0 16)" and h3: "val ?it = Given 45" by simp_all
  have h4: "list_all (\<lambda>it'. \<not> sameSecond (safeDurationOf 60) (MSS 0 16) it')
              [\<lparr>name = Given (MSS 0 40), val = Missing\<rparr>]" by code_simp
  have h5: "(0::int) \<le> 4" by simp
  have h6: "4 < targetCountOf (safeDurationOf 60)" by code_simp
  have h7: "controlPoints (Some steepMoods) 60 = [pt 0 0] @ pt 6 0 # pt 16 45 # [pt 40 50, pt 60 50]"
    by code_simp
  have g: "gridSec (safeDurationOf 60) (targetCountOf (safeDurationOf 60)) 4 = 13" by code_simp
  have h8: "sec (pt 6 0) \<le> gridSec (safeDurationOf 60) (targetCountOf (safeDurationOf 60)) 4"
    by code_simp
  have h9: "gridSec (safeDurationOf 60) (targetCountOf (safeDurationOf 60)) 4 \<le> sec (pt 16 45)"
    by code_simp
  have p: "pt (clamp (timeToSeconds (MSS 0 16)) 0 (safeDurationOf 60)) (clamp (mathRound 45) 0 100)
      = pt 16 45" by code_simp
  have n: "nat (clamp (mathRound (of_int (safeDurationOf 60) / 12)) 20 30) = 20" by code_simp
  have w: "linearAt (pt 6 0) (pt 16 45) 13 = 8866461766385663 / 281474976710656" by code_simp
  have v: "clamp (mathRound (linearAt (pt 6 0) (pt 16 45) 13)) 0 100 = 31" by code_simp
  have x: "linearExact (pt 6 0) (pt 16 45) 13 = 63 / 2" by code_simp
  have y: "mathRound (63 / 2) = 32" by code_simp
  note m = mood_normalizer[OF h1 h2 h3 h4 h5 h6 h7 h8 h9]
  have a: "pt 16 45 \<in> set (controlPoints (Some steepMoods) 60)"
    using m unfolding p by blast
  have b: "length (normalizeMoodData (Some steepMoods) 60) = 20"
    using m n by simp
  have c: "svalue (normalizeMoodData (Some steepMoods) 60 ! nat 4) = 31"
    using m g v by simp
  from h1 h7 g a b w x y c show ?thesis by (intro conjI) assumption+
qed

text \<open>
  The claim as stated takes the count from the source duration itself. For a source
  of 245.6 seconds the normaliser returns 21 samples and puts the last control point
  at second 246, while clamp(round(245.6/12), 20, 30) is 20.
\<close>

theorem mood_count_counterexample:
  "length (normalizeMoodData (Some oneMood) (1228 / 5)) = 21
   \<and> clamp (mathRound ((1228 / 5) / 12)) 20 30 = 20
   \<and> sec (last (controlPoints (Some oneMood) (1228 / 5))) = 246"
  by code_simp

section \<open>The merger keeps order, distance and coverage\<close>

lemma pairwiseApart_sorted_wrt: "pairwiseApart xs = sorted_wrt separated xs"
  by (induction xs) (auto simp: list_all_iff separated_def)

lemma mergeInto_start: "segStart (mergeInto c n) = segStart c"
  by (simp add: mergeInto_def Let_def segStart_def)


lemma mergeLoop_starts:
  "segStart ` set (mergeLoop c rest) \<subseteq> segStart ` set (c # rest)"
proof (induction rest arbitrary: c)
  case Nil
  then show ?case by simp
next
  case (Cons n rest)
  show ?case
  proof (cases "segStart n \<le> segEnd c + 2")
    case True
    with Cons.IH[of "mergeInto c n"] show ?thesis by (auto simp: mergeInto_start)
  next
    case False
    with Cons.IH[of n] show ?thesis by auto
  qed
qed

lemma mergeLoop_sorted:
  "sorted (map segStart (c # rest)) \<Longrightarrow> sorted (map segStart (mergeLoop c rest))"
proof (induction rest arbitrary: c)
  case Nil
  then show ?case by simp
next
  case (Cons n rest)
  show ?case
  proof (cases "segStart n \<le> segEnd c + 2")
    case True
    have "sorted (map segStart (mergeInto c n # rest))"
      using Cons.prems by (auto simp: mergeInto_start)
    from Cons.IH[OF this] True show ?thesis by simp
  next
    case False
    have s: "sorted (map segStart (n # rest))" using Cons.prems by simp
    have "\<forall>x\<in>set (mergeLoop n rest). segStart c \<le> segStart x"
    proof
      fix x assume "x \<in> set (mergeLoop n rest)"
      then have "segStart x \<in> segStart ` set (n # rest)" using mergeLoop_starts[of n rest] by blast
      then show "segStart c \<le> segStart x" using Cons.prems by auto
    qed
    with Cons.IH[OF s] False show ?thesis by simp
  qed
qed

lemma mergeLoop_apart:
  "sorted (map segStart (c # rest)) \<Longrightarrow> sorted_wrt apart (mergeLoop c rest)"
proof (induction rest arbitrary: c)
  case Nil
  then show ?case by simp
next
  case (Cons n rest)
  show ?case
  proof (cases "segStart n \<le> segEnd c + 2")
    case True
    have "sorted (map segStart (mergeInto c n # rest))"
      using Cons.prems by (auto simp: mergeInto_start)
    from Cons.IH[OF this] True show ?thesis by simp
  next
    case False
    have s: "sorted (map segStart (n # rest))" using Cons.prems by simp
    have "\<forall>x\<in>set (mergeLoop n rest). apart c x"
    proof
      fix x assume "x \<in> set (mergeLoop n rest)"
      then have "segStart x \<in> segStart ` set (n # rest)" using mergeLoop_starts[of n rest] by blast
      then have "segStart n \<le> segStart x" using s by auto
      with False show "apart c x" by (simp add: apart_def)
    qed
    with Cons.IH[OF s] False show ?thesis by simp
  qed
qed


lemma merge_cases:
  "mergeOverlappingSegments segments = (case segments of [] \<Rightarrow> [] | s # rest \<Rightarrow> mergeLoop s rest)"
  by (simp add: mergeOverlappingSegments_def split: list.splits)

lemma merge_sorted:
  "sorted (map segStart segments) \<Longrightarrow> sorted (map segStart (mergeOverlappingSegments segments))"
  by (cases segments) (simp_all add: merge_cases mergeLoop_sorted del: sorted_wrt.simps list.map)

lemma merge_apart:
  "sorted (map segStart segments) \<Longrightarrow> sorted_wrt apart (mergeOverlappingSegments segments)"
  by (cases segments) (simp_all add: merge_cases mergeLoop_apart del: list.map)


lemma sortByStart_sorted: "sorted (map segStart (sortByStart segments))"
  by (simp add: sortByStart_def)


lemma merge_sort_apart: "sorted_wrt apart (mergeOverlappingSegments (sortByStart segments))"
  by (rule merge_apart) (rule sortByStart_sorted)

lemma merge_sort_sorted: "startsAscending (mergeOverlappingSegments (sortByStart segments))"
  unfolding startsAscending_def by (rule merge_sorted) (rule sortByStart_sorted)


lemma apart_imp_pairwise: "sorted_wrt apart xs \<Longrightarrow> pairwiseApart xs"
  unfolding pairwiseApart_sorted_wrt by (erule sorted_wrt_mono_rel[rotated]) (simp add: separated_def)

lemma separated_sym: "separated a b = separated b a"
  by (auto simp: separated_def)

lemma sorted_wrt_separated_insort:
  "sorted_wrt separated (insort_key f x xs) = sorted_wrt separated (x # xs)"
  by (induction xs) (auto simp: set_insort_key separated_sym)

lemma sorted_wrt_separated_sort:
  "sorted_wrt separated (sort_key f xs) = sorted_wrt separated xs"
  by (induction xs) (simp_all add: sorted_wrt_separated_insort)

lemma pairwiseApart_sort_key: "pairwiseApart (sort_key f xs) = pairwiseApart xs"
  by (simp add: pairwiseApart_sorted_wrt sorted_wrt_separated_sort)

lemma compress_shrinks:
  assumes "compress st clip = (clip', d)"
  shows "segStart clip' = segStart clip \<and> segEnd clip' \<le> segEnd clip"
proof -
  have le: "segEnd (compressTo clip r) \<le> segStart clip + max 3 r" for r
    using tts_stt_le[of "of_int (segStart clip + max 3 r)"]
    by (simp add: compressTo_def segEnd_def del: of_int_add)
  have st: "segStart (compressTo clip r) = segStart clip" for r
    by (simp add: compressTo_def segStart_def)
  have c: "3 \<le> r \<Longrightarrow> r < clipDurationOf clip \<Longrightarrow> segEnd (compressTo clip r) \<le> segEnd clip" for r
    using le[of r] by (simp add: clipDurationOf_def)
  from assms show ?thesis
    by (auto simp: compress_def Let_def st MAX_HIGHLIGHT_DURATION_def intro!: c split: if_splits)
qed

lemma separated_shrink:
  "segStart c' = segStart c \<Longrightarrow> segEnd c' \<le> segEnd c \<Longrightarrow> separated c x \<Longrightarrow> separated c' x"
  by (auto simp: separated_def apart_def)

lemma trimStep_kept:
  "kept (trimStep st clip) = kept st \<or>
   (\<exists>clip'. kept (trimStep st clip) = kept st @ [clip'] \<and>
            segStart clip' = segStart clip \<and> segEnd clip' \<le> segEnd clip)"
proof -
  obtain clip' d where c: "compress st clip = (clip', d)" by (cases "compress st clip")
  from compress_shrinks[OF c] show ?thesis by (auto simp: trimStep_def c)
qed

lemma foldl_trimStep_pairwise:
  "sorted_wrt separated (kept st @ clips) \<Longrightarrow> sorted_wrt separated (kept (foldl trimStep st clips))"
proof (induction clips arbitrary: st)
  case Nil
  then show ?case by simp
next
  case (Cons clip rest)
  from trimStep_kept[of st clip] have "sorted_wrt separated (kept (trimStep st clip) @ rest)"
  proof
    assume "kept (trimStep st clip) = kept st"
    with Cons.prems show ?thesis by (auto simp: sorted_wrt_append)
  next
    assume "\<exists>clip'. kept (trimStep st clip) = kept st @ [clip'] \<and>
            segStart clip' = segStart clip \<and> segEnd clip' \<le> segEnd clip"
    then obtain clip' where k: "kept (trimStep st clip) = kept st @ [clip']"
      and s: "segStart clip' = segStart clip" and e: "segEnd clip' \<le> segEnd clip" by blast
    have n1: "separated clip x \<Longrightarrow> separated clip' x" for x using separated_shrink[OF s e] .
    have n2: "separated x clip \<Longrightarrow> separated x clip'" for x using n1[of x] by (simp add: separated_sym)
    from Cons.prems show ?thesis
      unfolding k by (auto simp: sorted_wrt_append intro: n1 n2)
  qed
  then show ?case by (simp add: Cons.IH)
qed

lemma stage2Trim_pairwise:
  assumes "pairwiseApart highlights"
  shows "pairwiseApart (stage2Trim highlights)"
proof (cases "calculateDuration highlights > MAX_HIGHLIGHT_DURATION")
  case True
  let ?init = "\<lparr>kept = [], currentDuration = 0, friendsIncluded = []\<rparr>"
  let ?sorted = "sort_key (\<lambda>c. - getPriority c) highlights"
  have "sorted_wrt separated (kept ?init @ ?sorted)"
    using assms by (simp add: pairwiseApart_sorted_wrt sorted_wrt_separated_sort)
  then have "sorted_wrt separated (kept (foldl trimStep ?init ?sorted))"
    by (rule foldl_trimStep_pairwise)
  then show ?thesis
    using True by (simp add: stage2Trim_def sortByStart_def pairwiseApart_sorted_wrt sorted_wrt_separated_sort)
next
  case False
  with assms show ?thesis by (simp add: stage2Trim_def)
qed

lemma stage2Trim_sorted:
  assumes "startsAscending highlights"
  shows "startsAscending (stage2Trim highlights)"
  using assms by (simp add: stage2Trim_def startsAscending_def sortByStart_def)

lemma sceneryFallback_sorted:
  assumes "startsAscending highlights"
  shows "startsAscending (sceneryFallback sc highlights videoDuration)"
  using assms by (simp add: sceneryFallback_def Let_def startsAscending_def sortByStart_def)

lemma sceneryFallback_cases:
  "sceneryFallback sc highlights videoDuration = highlights \<or>
   length (sceneryFallback sc highlights videoDuration) = Suc (length highlights)"
  by (simp add: sceneryFallback_def Let_def sortByStart_def)

section \<open>Order and distance in the cut\<close>

lemma ensureFriends_ordered:
  "fs \<noteq> [] \<Longrightarrow> sorted_wrt apart (ensureFriendsInHighlights fs hs D b) \<and>
                 startsAscending (ensureFriendsInHighlights fs hs D b)"
  by (simp add: ensureFriendsInHighlights_def merge_sort_apart merge_sort_sorted)

lemma ensureScenery_ordered:
  "sc \<noteq> [] \<Longrightarrow> sorted_wrt apart (ensureSceneryInHighlights sc hs D b) \<and>
                 startsAscending (ensureSceneryInHighlights sc hs D b)"
  by (simp add: ensureSceneryInHighlights_def merge_sort_apart merge_sort_sorted)

lemma ensureFood_ordered:
  "dh \<noteq> [] \<Longrightarrow> sorted_wrt apart (ensureFoodInHighlights dh hs D b) \<and>
                 startsAscending (ensureFoodInHighlights dh hs D b)"
  by (simp add: ensureFoodInHighlights_def merge_sort_apart merge_sort_sorted)

lemma ensureSafety_ordered:
  "sa \<noteq> [] \<Longrightarrow> sorted_wrt apart (ensureSafetyAlertsInHighlights sa hs D b) \<and>
                 startsAscending (ensureSafetyAlertsInHighlights sa hs D b)"
  by (simp add: ensureSafetyAlertsInHighlights_def merge_sort_apart merge_sort_sorted)

lemma coveredHighlights_ordered:
  assumes "friends a \<noteq> [] \<or> scenery a \<noteq> [] \<or> dietaryHabits a \<noteq> [] \<or> safetyAlerts a \<noteq> []"
  shows "sorted_wrt apart (coveredHighlights a D) \<and> startsAscending (coveredHighlights a D)"
proof (cases "safetyAlerts a = []")
  case False
  then show ?thesis
    unfolding coveredHighlights_def Let_def by (rule ensureSafety_ordered)
next
  case sa: True
  show ?thesis
  proof (cases "dietaryHabits a = []")
    case False
    then show ?thesis
      unfolding coveredHighlights_def Let_def
      by (simp add: sa ensureSafetyAlertsInHighlights_def ensureFood_ordered)
  next
    case dh: True
    show ?thesis
    proof (cases "scenery a = []")
      case False
      then have "map capStayDuration (scenery a) \<noteq> []" by simp
      from ensureScenery_ordered[OF this] show ?thesis
        unfolding coveredHighlights_def Let_def
        by (simp add: sa dh ensureSafetyAlertsInHighlights_def ensureFoodInHighlights_def)
    next
      case sc: True
      with assms sa dh have "friends a \<noteq> []" by simp
      from ensureFriends_ordered[OF this] show ?thesis
        unfolding coveredHighlights_def Let_def
        by (simp add: sa dh sc ensureSafetyAlertsInHighlights_def ensureFoodInHighlights_def
            ensureSceneryInHighlights_def)
    qed
  qed
qed

text \<open>
  When at least one of the four event lists is not empty, the cut that leaves the final
  trim is sorted ascending by start and any two of its segments are more than 2 seconds
  apart; the final cut is sorted ascending by start, and it is the trimmed cut or that
  cut with one inserted scenery segment, sorted by start again.
\<close>

lemma sceneryFallback_inserted:
  "sceneryFallback sc hs D = hs
   \<or> (\<exists>seg. source seg = Some Scenery \<and> sceneryFallback sc hs D = sortByStart (hs @ [seg]))"
proof -
  have *: "\<And>a b. \<exists>seg. source seg = Some Scenery \<and>
     sortByStart (hs @ [(newSegment a b)\<lparr>source := Some Scenery, isHighQuality := True\<rparr>])
       = sortByStart (hs @ [seg])"
  proof -
    fix a b
    have "source ((newSegment a b)\<lparr>source := Some Scenery, isHighQuality := True\<rparr>) = Some Scenery"
      by simp
    then show "\<exists>seg. source seg = Some Scenery \<and>
     sortByStart (hs @ [(newSegment a b)\<lparr>source := Some Scenery, isHighQuality := True\<rparr>])
       = sortByStart (hs @ [seg])" by blast
  qed
  show ?thesis
    unfolding sceneryFallback_def Let_def using * by (simp only: split: if_split) blast
qed

lemma trimmed_cut_sorted_and_apart:
  assumes "friends a \<noteq> [] \<or> scenery a \<noteq> [] \<or> dietaryHabits a \<noteq> [] \<or> safetyAlerts a \<noteq> []"
  shows "startsAscending (trimmedHighlights a videoDuration)
       \<and> pairwiseApart (trimmedHighlights a videoDuration)
       \<and> startsAscending (processHighlights a videoDuration)
       \<and> (processHighlights a videoDuration = trimmedHighlights a videoDuration
          \<or> (\<exists>seg. source seg = Some Scenery
                \<and> processHighlights a videoDuration
                    = sortByStart (trimmedHighlights a videoDuration @ [seg])))"
proof -
  from coveredHighlights_ordered[OF assms, of videoDuration]
  have o: "sorted_wrt apart (coveredHighlights a videoDuration)"
    and s: "startsAscending (coveredHighlights a videoDuration)" by simp_all
  have 1: "startsAscending (trimmedHighlights a videoDuration)"
    unfolding trimmedHighlights_def using s by (rule stage2Trim_sorted)
  have 2: "pairwiseApart (trimmedHighlights a videoDuration)"
    unfolding trimmedHighlights_def using o by (intro stage2Trim_pairwise apart_imp_pairwise)
  have 3: "startsAscending (processHighlights a videoDuration)"
    unfolding processHighlights_def using 1 by (rule sceneryFallback_sorted)
  have 4: "processHighlights a videoDuration = trimmedHighlights a videoDuration
          \<or> (\<exists>seg. source seg = Some Scenery
                \<and> processHighlights a videoDuration
                    = sortByStart (trimmedHighlights a videoDuration @ [seg]))"
    unfolding processHighlights_def by (rule sceneryFallback_inserted)
  from 1 2 3 4 show ?thesis by blast
qed

text \<open>
  With no annotated event and candidates of at most 120 seconds no pass sorts or
  merges: the candidates 0:05-0:15 and 0:00-0:10 are the final cut, out of order and
  both containing the seconds 5 to 10.
\<close>

lemma raw_candidates_pass_unsorted:
  "processHighlights unsortedCandidates 60
     = [candidate (MSS 0 5) (MSS 0 15), candidate (MSS 0 0) (MSS 0 10)]
   \<and> \<not> startsAscending (processHighlights unsortedCandidates 60)
   \<and> \<not> pairwiseApart (processHighlights unsortedCandidates 60)
   \<and> list_all (covers 5) (processHighlights unsortedCandidates 60)
   \<and> list_all (covers 10) (processHighlights unsortedCandidates 60)"
  by code_simp

text \<open>
  C3. The final cut is not always pairwise non-overlapping. Every coverage pass sorts
  and merges after it has added segments; the scenery fallback sorts after its
  insertion and does not merge. For the candidates 0:00-0:10 and 0:13-2:00, the subject
  Rex at 2:03 for 5 seconds, a scenery moment at 0:10 with a dwell of 5 seconds and a
  source of 300 seconds, the cut before the final trim is 0:00-0:10 and 0:13-2:08
  (125 seconds, sorted and apart), the trim keeps 0:13-2:08, the scenery moment is
  then in no segment, and the fallback inserts 0:08-0:15: the final cut is 0:08-0:15
  followed by 0:13-2:08, which share the seconds 13 to 15.
\<close>

theorem fallback_inserts_overlap:
  "spans (coveredHighlights sceneryBeforeFriend 300) = [(MSS 0 0, MSS 0 10), (MSS 0 13, MSS 2 8)]
   \<and> pairwiseApart (coveredHighlights sceneryBeforeFriend 300)
   \<and> spans (trimmedHighlights sceneryBeforeFriend 300) = [(MSS 0 13, MSS 2 8)]
   \<and> spans (processHighlights sceneryBeforeFriend 300) = [(MSS 0 8, MSS 0 15), (MSS 0 13, MSS 2 8)]
   \<and> startsAscending (processHighlights sceneryBeforeFriend 300)
   \<and> \<not> pairwiseApart (processHighlights sceneryBeforeFriend 300)
   \<and> list_all (covers 13) (processHighlights sceneryBeforeFriend 300)
   \<and> list_all (covers 15) (processHighlights sceneryBeforeFriend 300)
   \<and> calculateDuration (processHighlights sceneryBeforeFriend 300) = 122"
  by code_simp

section \<open>Coverage passes\<close>


lemma covers_spanOf: "spanOf a = spanOf b \<Longrightarrow> covers t a = covers t b"
  by (simp add: spanOf_def covers_def segStart_def segEnd_def)


































end
